theory Spec2Isabelle
  imports Complex_Main "HOL-Library.AList" "HOL-Library.Char_ord" "HOL-Library.List_Lexorder"
begin

section \<open>Python text: code points, whitespace, line boundaries\<close>

text \<open>
  A configuration text is a Python \<^verbatim>\<open>str\<close>: a sequence of Unicode code points.
  \<^verbatim>\<open>str.splitlines\<close>, \<^verbatim>\<open>str.strip\<close> and \<^verbatim>\<open>str.rstrip\<close> look at
  code points beyond Latin-1 (U+2028, U+3000, ...), so a text is a list of
  natural numbers; \<open>lit\<close> turns a literal of the source into such a list.
\<close>

type_synonym ustr = "nat list"

definition is_space :: "nat \<Rightarrow> bool" where
  "is_space c \<longleftrightarrow>
     (9 \<le> c \<and> c \<le> 13) \<or> (28 \<le> c \<and> c \<le> 32) \<or> c = 133 \<or> c = 160 \<or> c = 5760 \<or>
     (8192 \<le> c \<and> c \<le> 8202) \<or> c = 8232 \<or> c = 8233 \<or> c = 8239 \<or> c = 8287 \<or>
     c = 12288"

definition is_linebreak :: "nat \<Rightarrow> bool" where
  "is_linebreak c \<longleftrightarrow>
     (10 \<le> c \<and> c \<le> 13) \<or> (28 \<le> c \<and> c \<le> 30) \<or> c = 133 \<or> c = 8232 \<or> c = 8233"

text \<open>\<^verbatim>\<open>"\n"\<close>, the separator of every join in the program.\<close>

definition NL :: ustr where
  "NL = [10]"

text \<open>
  \<^verbatim>\<open>str.splitlines()\<close> (keepends false): the text up to the next line
  boundary is a line; the boundary is dropped, \<^verbatim>\<open>\r\n\<close> counting as one; a
  text that ends in a boundary has no empty last line.
\<close>

function splitlines :: "ustr \<Rightarrow> ustr list" where
  "splitlines [] = []"
| "splitlines (c # cs) =
     (let line = takeWhile (\<lambda>x. \<not> is_linebreak x) (c # cs);
          rest = dropWhile (\<lambda>x. \<not> is_linebreak x) (c # cs)
      in case rest of
           [] \<Rightarrow> [line]
         | b # rest' \<Rightarrow>
             line # splitlines (if b = 13 \<and> rest' \<noteq> [] \<and> hd rest' = 10 then tl rest' else rest'))"
  by pat_completeness auto
termination
proof (relation "measure length")
  show "wf (measure length)" by simp
next
  fix c b :: nat and cs line rest rest' :: "nat list"
  assume "rest = dropWhile (\<lambda>x. \<not> is_linebreak x) (c # cs)" and "rest = b # rest'"
  then have eq: "dropWhile (\<lambda>x. \<not> is_linebreak x) (c # cs) = b # rest'" by simp
  have "length (dropWhile (\<lambda>x. \<not> is_linebreak x) (c # cs)) \<le> length (c # cs)"
    by (rule length_dropWhile_le)
  with eq have "length rest' < length (c # cs)" by simp
  moreover have "length (tl rest') \<le> length rest'" by simp
  ultimately show "(if b = 13 \<and> rest' \<noteq> [] \<and> hd rest' = 10 then tl rest' else rest', c # cs)
      \<in> measure length"
    by (simp add: less_imp_diff_less)
qed

text \<open>\<^verbatim>\<open>str.lstrip()\<close>, \<^verbatim>\<open>str.rstrip()\<close>, \<^verbatim>\<open>str.strip()\<close> with no argument.\<close>

definition lstrip :: "ustr \<Rightarrow> ustr" where
  "lstrip s = dropWhile is_space s"

definition rstrip :: "ustr \<Rightarrow> ustr" where
  "rstrip s = rev (dropWhile is_space (rev s))"

definition strip :: "ustr \<Rightarrow> ustr" where
  "strip s = rstrip (lstrip s)"

text \<open>\<^verbatim>\<open>sep.join(parts)\<close>.\<close>

fun join :: "'a list \<Rightarrow> 'a list list \<Rightarrow> 'a list" where
  "join sep [] = []"
| "join sep [x] = x"
| "join sep (x # y # ys) = x @ sep @ join sep (y # ys)"

text \<open>
  The two normalisations of the drift detector, as functions of the raw text:
  \<^verbatim>\<open>running_config\<close> after \<^verbatim>\<open>command_text\<close> has returned \<open>text\<close>, and
  \<^verbatim>\<open>load_golden_config\<close> after \<^verbatim>\<open>path.read_text\<close> has returned it.
\<close>

definition normalize_running :: "ustr \<Rightarrow> ustr" where
  "normalize_running text = strip (join NL (map rstrip (splitlines text))) @ NL"

definition normalize_golden :: "ustr \<Rightarrow> ustr" where
  "normalize_golden text = strip (join NL (splitlines text)) @ NL"

section \<open>Data model\<close>

text \<open>
  The model follows \<^verbatim>\<open>scripts/fabric-pulse.py\<close>. Every Python \<^verbatim>\<open>str\<close> is a
  \<open>ustr\<close>. An exception is a value that carries its \<^verbatim>\<open>str(exc)\<close>; only
  instances of \<^verbatim>\<open>Exception\<close> are modelled, the ones that \<^verbatim>\<open>except Exception\<close>
  catches (\<^verbatim>\<open>KeyboardInterrupt\<close> is the operator's way out of the watch loop).
\<close>

abbreviation lit :: "string \<Rightarrow> ustr" where
  "lit s \<equiv> map of_char s"

datatype exn = Exception (str_of: ustr)

record Device =
  name :: ustr
  host :: ustr

record Snapshot =
  name :: ustr
  model :: ustr
  version :: ustr
  uptime :: ustr
  cpu :: ustr
  temperature :: ustr
  bgp :: ustr
  mlag :: ustr
  reachable :: bool
  error :: ustr

text \<open>What \<^verbatim>\<open>json.loads\<close> and the eAPI client hand back.\<close>

datatype json =
    JNull
  | JBool bool
  | JInt int
  | JFloat real
  | JStr ustr
  | JList "json list"
  | JDict "(ustr \<times> json) list"

text \<open>The per-device dictionary that \<^verbatim>\<open>detect_drift\<close> builds.\<close>

record DriftResult =
  drift :: bool
  reason :: ustr
  diff :: "ustr list"
  golden_path :: ustr

record Args =
  group :: ustr
  golden_dir :: ustr
  flash_dir :: ustr
  watch :: bool
  no_restore :: bool

text \<open>
  Everything outside the program is a record of operations over two states: the
  local file system \<open>'fs\<close> and the network with its devices \<open>'net\<close>. A session
  operation may change the network and may raise; a file operation works on the
  local files only. \<open>pyeapi_connect\<close> is \<^verbatim>\<open>pyeapi.client.connect\<close> with the
  credentials of the run, \<open>node_enable\<close> is \<^verbatim>\<open>node.enable(commands, encoding)\<close>
  (the flag says \<^verbatim>\<open>encoding="text"\<close>), \<open>unified_diff\<close> is \<^verbatim>\<open>difflib.unified_diff\<close>
  with \<^verbatim>\<open>lineterm=""\<close> and \<^verbatim>\<open>n=2\<close>, \<open>py_repr\<close> is \<^verbatim>\<open>str\<close> on a value that is
  not a string. The four field readers catch every exception themselves and
  return a text; how they parse the device's answer plays no part below, so they
  are operations of the environment too.
\<close>

record ('fs, 'net) env =
  pyeapi_connect :: "ustr \<Rightarrow> 'net \<Rightarrow> (exn + unit) \<times> 'net"
  node_enable :: "ustr \<Rightarrow> ustr list \<Rightarrow> bool \<Rightarrow> 'net \<Rightarrow> (exn + json list) \<times> 'net"
  read_cpu :: "ustr \<Rightarrow> 'net \<Rightarrow> ustr \<times> 'net"
  read_temperature :: "ustr \<Rightarrow> 'net \<Rightarrow> ustr \<times> 'net"
  read_bgp_status :: "ustr \<Rightarrow> 'net \<Rightarrow> ustr \<times> 'net"
  read_mlag_status :: "ustr \<Rightarrow> 'net \<Rightarrow> ustr \<times> 'net"
  path_exists :: "ustr \<Rightarrow> 'fs \<Rightarrow> bool"
  read_text :: "ustr \<Rightarrow> 'fs \<Rightarrow> exn + ustr"
  mkdir :: "ustr \<Rightarrow> 'fs \<Rightarrow> (exn + unit) \<times> 'fs"
  copyfile :: "ustr \<Rightarrow> ustr \<Rightarrow> 'fs \<Rightarrow> (exn + unit) \<times> 'fs"
  unified_diff :: "ustr list \<Rightarrow> ustr list \<Rightarrow> ustr \<Rightarrow> ustr \<Rightarrow> ustr list"
  py_repr :: "json \<Rightarrow> ustr"

text \<open>
  The state threaded through the program. \<open>opened\<close> lists the devices for which
  \<^verbatim>\<open>node_for_device\<close> has been called, in order.
\<close>

record ('fs, 'net) state =
  fs :: 'fs
  net :: 'net
  opened :: "Device list"


type_synonym node = ustr
type_synonym results = "(ustr \<times> DriftResult) list"

text \<open>
  The inventory that \<^verbatim>\<open>ansible-inventory --list\<close> prints: a JSON object from
  group names (and \<^verbatim>\<open>_meta\<close>) to objects. A missing key reads as the default
  that \<^verbatim>\<open>.get\<close> gives it, an empty list or dictionary; \<open>hostvars\<close> keeps
  the \<^verbatim>\<open>ansible_host\<close> of the hosts that have one.
\<close>

record entry =
  hosts :: "ustr list"
  children :: "ustr list"
  hostvars :: "(ustr \<times> ustr) list"

type_synonym inventory = "(ustr \<times> entry) list"

text \<open>The finished \<^verbatim>\<open>ansible-inventory\<close> process, its output already parsed.\<close>

record Proc =
  returncode :: int
  stdout_json :: "exn + inventory"
  stderr :: ustr

text \<open>
  The operator: the answer to the restore prompt, and the number of snapshot
  rounds of the watch loop before Ctrl+C.
\<close>

record Operator =
  confirm :: bool
  cycles :: nat

text \<open>
  What one invocation of \<^verbatim>\<open>main\<close> did: the exit code, the first detection
  pass, the drifted devices, the calls of \<^verbatim>\<open>restore_golden\<close> with their
  results in order, and the verification pass.
\<close>

record Run =
  exit_code :: int
  drift_data :: results
  drifted :: "Device list"
  restored :: "(Device \<times> bool \<times> ustr) list"
  post_drift :: results

section \<open>Inventory\<close>

definition inv_get :: "inventory \<Rightarrow> ustr \<Rightarrow> entry" where
  "inv_get invt group_name =
     (case map_of invt group_name of
        Some group_data \<Rightarrow> group_data
      | None \<Rightarrow> \<lparr>hosts = [], children = [], hostvars = []\<rparr>)"

text \<open>
  \<^verbatim>\<open>collect_hosts\<close> of \<^verbatim>\<open>fabric-pulse.py\<close> and \<^verbatim>\<open>collect\<close> of
  \<^verbatim>\<open>inventory_check.py\<close> are the same recursion over one mutable set of visited
  groups, which the model passes in and out. The first argument bounds the depth
  of the recursion; \<open>None\<close> means the bound was reached. \<open>collect_children\<close> is
  the \<^verbatim>\<open>for child in ...\<close> loop.
\<close>

fun collect_hosts_fuel :: "nat \<Rightarrow> inventory \<Rightarrow> ustr \<Rightarrow> ustr set \<Rightarrow> (ustr set \<times> ustr set) option"
  and collect_children :: "nat \<Rightarrow> inventory \<Rightarrow> ustr list \<Rightarrow> ustr set \<times> ustr set \<Rightarrow> (ustr set \<times> ustr set) option"
where
  "collect_hosts_fuel 0 invt group_name seen = None"
| "collect_hosts_fuel (Suc n) invt group_name seen =
     (if group_name \<in> seen then Some ({}, seen)
      else collect_children n invt (children (inv_get invt group_name))
             (set (hosts (inv_get invt group_name)), insert group_name seen))"
| "collect_children n invt [] acc = Some acc"
| "collect_children n invt (child # rest) (hs, seen) =
     (case collect_hosts_fuel n invt child seen of
        None \<Rightarrow> None
      | Some (h, seen') \<Rightarrow> collect_children n invt rest (hs \<union> h, seen'))"

text \<open>
  Every name the recursion can meet: the start group, the keys and the children.
  One more level than there are such names is always enough depth (shown below),
  so \<open>collect_hosts\<close> runs with that bound.
\<close>

definition group_names :: "inventory \<Rightarrow> ustr \<Rightarrow> ustr list" where
  "group_names invt group_name =
     remdups (group_name # map fst invt @ concat (map (\<lambda>kv. children (snd kv)) invt))"

definition collect_hosts :: "inventory \<Rightarrow> ustr \<Rightarrow> ustr set option" where
  "collect_hosts invt group_name =
     map_option fst
       (collect_hosts_fuel (Suc (length (group_names invt group_name))) invt group_name {})"

text \<open>
  \<^verbatim>\<open>load_inventory_devices\<close>. \<^verbatim>\<open>sorted(set)\<close> is \<open>sorted_list_of_set\<close> in
  the lexicographic order of code points. The branch for an exhausted depth is
  there for totality; \<open>collect_hosts\<close> never takes it (shown below). The
  interpreter's own recursion limit is not modelled.
\<close>

definition load_inventory_devices :: "Proc \<Rightarrow> ustr \<Rightarrow> exn + Device list" where
  "load_inventory_devices proc grp =
     (if returncode proc \<noteq> 0
      then Inl (Exception (lit ''Failed to run ansible-inventory: '' @ strip (stderr proc)))
      else case stdout_json proc of
        Inl e \<Rightarrow> Inl e
      | Inr invt \<Rightarrow>
          if map_of invt grp = None
          then Inl (Exception (lit ''Group '' @ [39] @ grp @ [39] @ lit '' not found in inventory''))
          else case collect_hosts invt grp of
            None \<Rightarrow> Inl (Exception (lit ''maximum recursion depth exceeded''))
          | Some group_hosts \<Rightarrow>
              Inr (map (\<lambda>hostname.
                     \<lparr>Device.name = hostname,
                      host = (case map_of (hostvars (inv_get invt (lit ''_meta''))) hostname of
                                Some host_ip \<Rightarrow> host_ip
                              | None \<Rightarrow> hostname)\<rparr>)
                   (sorted_list_of_set group_hosts)))"

section \<open>Device session\<close>

text \<open>Running a network or a file operation inside the state.\<close>

definition with_net :: "('net \<Rightarrow> 'a \<times> 'net) \<Rightarrow> ('fs, 'net) state \<Rightarrow> 'a \<times> ('fs, 'net) state" where
  "with_net f s = (case f (net s) of (r, n) \<Rightarrow> (r, s\<lparr>net := n\<rparr>))"

definition with_fs :: "('fs \<Rightarrow> 'a \<times> 'fs) \<Rightarrow> ('fs, 'net) state \<Rightarrow> 'a \<times> ('fs, 'net) state" where
  "with_fs f s = (case f (fs s) of (r, x) \<Rightarrow> (r, s\<lparr>fs := x\<rparr>))"

definition node_for_device ::
  "('fs, 'net) env \<Rightarrow> Device \<Rightarrow> ('fs, 'net) state \<Rightarrow> (exn + node) \<times> ('fs, 'net) state" where
  "node_for_device env device s =
     (case with_net (pyeapi_connect env (host device)) (s\<lparr>opened := opened s @ [device]\<rparr>) of
        (Inl e, s') \<Rightarrow> (Inl e, s')
      | (Inr _, s') \<Rightarrow> (Inr (host device), s'))"

definition py_str :: "('fs, 'net) env \<Rightarrow> json \<Rightarrow> ustr" where
  "py_str env j = (case j of JStr t \<Rightarrow> t | _ \<Rightarrow> py_repr env j)"

definition IndexError :: exn where
  "IndexError = Exception (lit ''list index out of range'')"

definition json_result :: "json \<Rightarrow> (ustr \<times> json) list" where
  "json_result response =
     (case response of
        JDict d \<Rightarrow> (case map_of d (lit ''result'') of Some (JDict r) \<Rightarrow> r | _ \<Rightarrow> d)
      | _ \<Rightarrow> [])"

definition command_json ::
  "('fs, 'net) env \<Rightarrow> node \<Rightarrow> ustr \<Rightarrow> ('fs, 'net) state
     \<Rightarrow> (exn + (ustr \<times> json) list) \<times> ('fs, 'net) state" where
  "command_json env nd command s =
     (case with_net (node_enable env nd [command] False) s of
        (Inl e, s') \<Rightarrow> (Inl e, s')
      | (Inr [], s') \<Rightarrow> (Inl IndexError, s')
      | (Inr (response # _), s') \<Rightarrow> (Inr (json_result response), s'))"

definition get_str :: "(ustr \<times> json) list \<Rightarrow> ustr \<Rightarrow> ustr option" where
  "get_str d k = (case map_of d k of Some (JStr t) \<Rightarrow> Some t | _ \<Rightarrow> None)"

definition text_result :: "('fs, 'net) env \<Rightarrow> json \<Rightarrow> ustr" where
  "text_result env response =
     (case response of
        JDict d \<Rightarrow>
          (case (case map_of d (lit ''result'') of
                   Some (JDict r) \<Rightarrow>
                     (case get_str r (lit ''output'') of
                        Some t \<Rightarrow> Some t
                      | None \<Rightarrow> get_str r (lit ''response''))
                 | _ \<Rightarrow> None) of
             Some t \<Rightarrow> t
           | None \<Rightarrow>
               (case get_str d (lit ''output'') of
                  Some t \<Rightarrow> t
                | None \<Rightarrow>
                    (case get_str d (lit ''response'') of
                       Some t \<Rightarrow> t
                     | None \<Rightarrow> py_str env response)))
      | _ \<Rightarrow> py_str env response)"

definition command_text ::
  "('fs, 'net) env \<Rightarrow> node \<Rightarrow> ustr \<Rightarrow> ('fs, 'net) state \<Rightarrow> (exn + ustr) \<times> ('fs, 'net) state" where
  "command_text env nd command s =
     (case with_net (node_enable env nd [command] True) s of
        (Inl e, s') \<Rightarrow> (Inl e, s')
      | (Inr [], s') \<Rightarrow> (Inl IndexError, s')
      | (Inr (response # _), s') \<Rightarrow> (Inr (text_result env response), s'))"

section \<open>Snapshot collector and health evaluator\<close>

text \<open>Decimal digits, for the f-string of \<^verbatim>\<open>format_uptime\<close>.\<close>

function str_of_nat :: "nat \<Rightarrow> ustr" where
  "str_of_nat n = (if n < 10 then [48 + n] else str_of_nat (n div 10) @ [48 + n mod 10])"
  by pat_completeness auto
termination
  by (relation "measure id") auto

definition str_of_int :: "int \<Rightarrow> ustr" where
  "str_of_int i = (if i < 0 then 45 # str_of_nat (nat (- i)) else str_of_nat (nat i))"

definition format_seconds :: "int \<Rightarrow> ustr" where
  "format_seconds seconds =
     (let days = seconds div 86400; rem = seconds mod 86400;
          hours = rem div 3600; rem' = rem mod 3600;
          minutes = rem' div 60
      in str_of_int days @ lit ''d '' @ str_of_int hours @ lit ''h '' @ str_of_int minutes @ lit ''m'')"

definition format_uptime :: "json option \<Rightarrow> ustr" where
  "format_uptime seconds =
     (case seconds of
        Some (JInt n) \<Rightarrow> format_seconds n
      | Some (JBool b) \<Rightarrow> format_seconds (if b then 1 else 0)
      | _ \<Rightarrow> lit ''n/a'')"

text \<open>
  A Python \<^verbatim>\<open>float\<close>, and \<^verbatim>\<open>x >= y\<close> on it. \<^verbatim>\<open>float(text)\<close> itself is a
  parameter of \<open>health_color\<close>; \<open>None\<close> is the \<^verbatim>\<open>ValueError\<close> it raises.
\<close>

datatype pyfloat = Finite real | PosInf | NegInf | NaN

fun float_ge :: "pyfloat \<Rightarrow> real \<Rightarrow> bool" where
  "float_ge (Finite x) y = (x \<ge> y)"
| "float_ge PosInf y = True"
| "float_ge NegInf y = False"
| "float_ge NaN y = False"

definition rstrip_chars :: "ustr \<Rightarrow> ustr \<Rightarrow> ustr" where
  "rstrip_chars s chars = rev (dropWhile (\<lambda>c. c \<in> set chars) (rev s))"

definition health_color :: "(ustr \<Rightarrow> pyfloat option) \<Rightarrow> ustr \<Rightarrow> ustr \<Rightarrow> ustr" where
  "health_color float cpu_text temp_text =
     (let cpu_value = float (rstrip_chars cpu_text (lit ''%''));
          temp_value = float (rstrip_chars temp_text (lit ''C''))
      in if cpu_value \<noteq> None \<and> float_ge (the cpu_value) 80 then lit ''red''
         else if temp_value \<noteq> None \<and> float_ge (the temp_value) 80 then lit ''red''
         else if cpu_value = None \<and> temp_value = None then lit ''yellow''
         else lit ''green'')"

text \<open>The snapshot of the \<^verbatim>\<open>except\<close> branch of \<^verbatim>\<open>collect_snapshot\<close>.\<close>

definition unreachable :: "Device \<Rightarrow> exn \<Rightarrow> Snapshot" where
  "unreachable device exc =
     \<lparr>Snapshot.name = Device.name device, model = lit ''n/a'', version = lit ''n/a'',
      uptime = lit ''n/a'', cpu = lit ''n/a'', temperature = lit ''n/a'', bgp = lit ''n/a'',
      mlag = lit ''n/a'', reachable = False, error = str_of exc\<rparr>"

definition get_or_na :: "('fs, 'net) env \<Rightarrow> (ustr \<times> json) list \<Rightarrow> ustr \<Rightarrow> ustr" where
  "get_or_na env d k = (case map_of d k of Some v \<Rightarrow> py_str env v | None \<Rightarrow> lit ''n/a'')"

definition collect_snapshot ::
  "('fs, 'net) env \<Rightarrow> Device \<Rightarrow> ('fs, 'net) state \<Rightarrow> Snapshot \<times> ('fs, 'net) state" where
  "collect_snapshot env device s =
     (case node_for_device env device s of
        (Inl exc, s1) \<Rightarrow> (unreachable device exc, s1)
      | (Inr nd, s1) \<Rightarrow>
          (case command_json env nd (lit ''show version'') s1 of
             (Inl exc, s2) \<Rightarrow> (unreachable device exc, s2)
           | (Inr ver, s2) \<Rightarrow>
               (case with_net (read_cpu env nd) s2 of (cpu_text, s3) \<Rightarrow>
                case with_net (read_temperature env nd) s3 of (temp, s4) \<Rightarrow>
                case with_net (read_bgp_status env nd) s4 of (bgp_text, s5) \<Rightarrow>
                case with_net (read_mlag_status env nd) s5 of (mlag_text, s6) \<Rightarrow>
                  (\<lparr>Snapshot.name = Device.name device,
                    model = get_or_na env ver (lit ''modelName''),
                    version = get_or_na env ver (lit ''version''),
                    uptime = format_uptime (map_of ver (lit ''uptime'')),
                    cpu = cpu_text, temperature = temp, bgp = bgp_text, mlag = mlag_text,
                    reachable = True, error = []\<rparr>, s6))))"

fun collect_all ::
  "('fs, 'net) env \<Rightarrow> Device list \<Rightarrow> ('fs, 'net) state \<Rightarrow> Snapshot list \<times> ('fs, 'net) state" where
  "collect_all env [] s = ([], s)"
| "collect_all env (device # rest) s =
     (case collect_snapshot env device s of (snap, s') \<Rightarrow>
      case collect_all env rest s' of (snaps, s'') \<Rightarrow> (snap # snaps, s''))"

text \<open>The \<^verbatim>\<open>while True\<close> of watch mode, left by the operator's interrupt.\<close>

fun watch_loop ::
  "('fs, 'net) env \<Rightarrow> nat \<Rightarrow> Device list \<Rightarrow> ('fs, 'net) state \<Rightarrow> ('fs, 'net) state" where
  "watch_loop env 0 devices s = s"
| "watch_loop env (Suc k) devices s = watch_loop env k devices (snd (collect_all env devices s))"


section \<open>Drift detector\<close>

text \<open>\<^verbatim>\<open>golden_dir / f"{hostname}.cfg"\<close>, for a relative host name.\<close>

definition golden_file_path :: "ustr \<Rightarrow> ustr \<Rightarrow> ustr" where
  "golden_file_path gdir hostname = gdir @ lit ''/'' @ hostname @ lit ''.cfg''"

definition running_config ::
  "('fs, 'net) env \<Rightarrow> node \<Rightarrow> ('fs, 'net) state \<Rightarrow> (exn + ustr) \<times> ('fs, 'net) state" where
  "running_config env nd s =
     (case command_text env nd (lit ''show running-config'') s of
        (Inl e, s') \<Rightarrow> (Inl e, s')
      | (Inr text, s') \<Rightarrow> (Inr (normalize_running text), s'))"

definition load_golden_config :: "('fs, 'net) env \<Rightarrow> ustr \<Rightarrow> 'fs \<Rightarrow> exn + ustr" where
  "load_golden_config env path x =
     (case read_text env path x of
        Inl e \<Rightarrow> Inl e
      | Inr text \<Rightarrow> Inr (normalize_golden text))"

definition config_diff :: "('fs, 'net) env \<Rightarrow> ustr \<Rightarrow> ustr \<Rightarrow> ustr \<Rightarrow> ustr list" where
  "config_diff env golden running hostname =
     unified_diff env (splitlines golden) (splitlines running)
       (lit ''golden/'' @ hostname @ lit ''.cfg'') (lit ''running/'' @ hostname)"

definition read_error :: "DriftResult \<Rightarrow> exn \<Rightarrow> DriftResult" where
  "read_error result exc = result\<lparr>reason := lit ''Error reading running-config: '' @ str_of exc\<rparr>"

text \<open>The body of the loop of \<^verbatim>\<open>detect_drift\<close>, for one device.\<close>

definition detect_device ::
  "('fs, 'net) env \<Rightarrow> Args \<Rightarrow> Device \<Rightarrow> ('fs, 'net) state \<Rightarrow> DriftResult \<times> ('fs, 'net) state" where
  "detect_device env args device s =
     (let path = golden_file_path (golden_dir args) (Device.name device);
          result = \<lparr>drift = False, reason = [], diff = [], golden_path = path\<rparr>
      in if \<not> path_exists env path (fs s)
         then (result\<lparr>reason := lit ''Golden config missing''\<rparr>, s)
         else
           (case node_for_device env device s of
              (Inl exc, s1) \<Rightarrow> (read_error result exc, s1)
            | (Inr nd, s1) \<Rightarrow>
                (case running_config env nd s1 of
                   (Inl exc, s2) \<Rightarrow> (read_error result exc, s2)
                 | (Inr running, s2) \<Rightarrow>
                     (case load_golden_config env path (fs s2) of
                        Inl exc \<Rightarrow> (read_error result exc, s2)
                      | Inr golden \<Rightarrow>
                          (let d = config_diff env golden running (Device.name device)
                           in (result\<lparr>diff := d, drift := (length d > 0)\<rparr>, s2))))))"

text \<open>
  The loop. \<^verbatim>\<open>results[device.name] = result\<close> on a Python dictionary keeps
  the place of a key that is already there, as \<open>AList.update\<close> does.
\<close>

fun detect_loop ::
  "('fs, 'net) env \<Rightarrow> Args \<Rightarrow> Device list \<Rightarrow> results \<Rightarrow> ('fs, 'net) state
     \<Rightarrow> results \<times> ('fs, 'net) state" where
  "detect_loop env args [] res s = (res, s)"
| "detect_loop env args (device # rest) res s =
     (case detect_device env args device s of
        (result, s') \<Rightarrow> detect_loop env args rest (AList.update (Device.name device) result res) s')"

definition detect_drift ::
  "('fs, 'net) env \<Rightarrow> Args \<Rightarrow> Device list \<Rightarrow> ('fs, 'net) state \<Rightarrow> results \<times> ('fs, 'net) state" where
  "detect_drift env args devices s = detect_loop env args devices [] s"

section \<open>Remediation\<close>

definition stage_golden_to_flash ::
  "('fs, 'net) env \<Rightarrow> ustr \<Rightarrow> ustr \<Rightarrow> ustr \<Rightarrow> ('fs, 'net) state \<Rightarrow> (exn + ustr) \<times> ('fs, 'net) state" where
  "stage_golden_to_flash env flash_root hostname golden_file s =
     (let fdir = flash_root @ lit ''/'' @ hostname @ lit ''/flash'';
          staged_name = lit ''golden-'' @ hostname @ lit ''.cfg'';
          staged_path = fdir @ lit ''/'' @ staged_name
      in case with_fs (mkdir env fdir) s of
           (Inl e, s1) \<Rightarrow> (Inl e, s1)
         | (Inr _, s1) \<Rightarrow>
             (case with_fs (copyfile env golden_file staged_path) s1 of
                (Inl e, s2) \<Rightarrow> (Inl e, s2)
              | (Inr _, s2) \<Rightarrow> (Inr staged_name, s2)))"

definition restore_golden ::
  "('fs, 'net) env \<Rightarrow> Args \<Rightarrow> Device \<Rightarrow> ('fs, 'net) state \<Rightarrow> (bool \<times> ustr) \<times> ('fs, 'net) state" where
  "restore_golden env args device s =
     (let path = golden_file_path (golden_dir args) (Device.name device)
      in if \<not> path_exists env path (fs s)
         then ((False, lit ''Golden config not found: '' @ path), s)
         else
           (case stage_golden_to_flash env (flash_dir args) (Device.name device) path s of
              (Inl exc, s1) \<Rightarrow> ((False, str_of exc), s1)
            | (Inr staged_name, s1) \<Rightarrow>
                (case node_for_device env device s1 of
                   (Inl exc, s2) \<Rightarrow> ((False, str_of exc), s2)
                 | (Inr nd, s2) \<Rightarrow>
                     (case with_net (node_enable env nd
                              [lit ''configure replace flash:'' @ staged_name, lit ''write memory'']
                              False) s2 of
                        (Inl exc, s3) \<Rightarrow> ((False, str_of exc), s3)
                      | (Inr _, s3) \<Rightarrow> ((True, lit ''Restored from flash:'' @ staged_name), s3)))))"

text \<open>The \<^verbatim>\<open>for device in drifted\<close> loop of \<^verbatim>\<open>main\<close>, with \<^verbatim>\<open>all_ok\<close>.\<close>

fun restore_loop ::
  "('fs, 'net) env \<Rightarrow> Args \<Rightarrow> Device list \<Rightarrow> bool \<Rightarrow> ('fs, 'net) state
     \<Rightarrow> (bool \<times> (Device \<times> bool \<times> ustr) list) \<times> ('fs, 'net) state" where
  "restore_loop env args [] all_ok s = ((all_ok, []), s)"
| "restore_loop env args (device # rest) all_ok s =
     (case restore_golden env args device s of
        ((ok, message), s') \<Rightarrow>
          (case restore_loop env args rest (if ok then all_ok else False) s' of
             ((all_ok', lg), s'') \<Rightarrow> ((all_ok', (device, ok, message) # lg), s'')))"

section \<open>Orchestration driver\<close>

definition KeyError :: "ustr \<Rightarrow> exn" where
  "KeyError k = Exception ([39] @ k @ [39])"

text \<open>
  \<^verbatim>\<open>[d for d in devices if drift_data[d.name]["drift"]]\<close>; a missing key
  raises \<^verbatim>\<open>KeyError\<close>.
\<close>

fun filter_drifted :: "results \<Rightarrow> Device list \<Rightarrow> exn + Device list" where
  "filter_drifted data [] = Inr []"
| "filter_drifted data (d # ds) =
     (case map_of data (Device.name d) of
        None \<Rightarrow> Inl (KeyError (Device.name d))
      | Some info \<Rightarrow>
          (case filter_drifted data ds of
             Inl e \<Rightarrow> Inl e
           | Inr rest \<Rightarrow> Inr (if drift info then d # rest else rest)))"

definition finished :: "int \<Rightarrow> results \<Rightarrow> Device list \<Rightarrow> Run" where
  "finished code data dr =
     \<lparr>exit_code = code, drift_data = data, drifted = dr, restored = [], post_drift = []\<rparr>"

text \<open>
  \<^verbatim>\<open>main\<close> after \<^verbatim>\<open>parse_args\<close>. Printing is left out; what is printed is in
  the \<open>Run\<close>. \<open>Inl\<close> is an exception that leaves \<^verbatim>\<open>main\<close>.
\<close>

definition main ::
  "('fs, 'net) env \<Rightarrow> Args \<Rightarrow> Proc \<Rightarrow> Operator \<Rightarrow> ('fs, 'net) state
     \<Rightarrow> (exn + Run) \<times> ('fs, 'net) state" where
  "main env args proc oper s =
     (case load_inventory_devices proc (group args) of
        Inl exc \<Rightarrow> (Inr (finished 2 [] []), s)
      | Inr devices \<Rightarrow>
          if devices = [] then (Inr (finished 2 [] []), s)
          else
            (let s1 = (if watch args then watch_loop env (cycles oper) devices s
                       else snd (collect_all env devices s))
             in case detect_drift env args devices s1 of
                  (data, s2) \<Rightarrow>
                    (case filter_drifted data devices of
                       Inl exc \<Rightarrow> (Inl exc, s2)
                     | Inr dr \<Rightarrow>
                         if no_restore args \<or> dr = []
                         then (Inr (finished (if dr \<noteq> [] then 1 else 0) data dr), s2)
                         else if \<not> confirm oper
                         then (Inr (finished 1 data dr), s2)
                         else
                           (case restore_loop env args dr True s2 of
                              ((all_ok, lg), s3) \<Rightarrow>
                                (case detect_drift env args dr s3 of
                                   (post, s4) \<Rightarrow>
                                     (let remaining = map fst (filter (\<lambda>kv. drift (snd kv)) post);
                                          all_ok' = (if remaining \<noteq> [] then False else all_ok)
                                      in (Inr \<lparr>exit_code = (if all_ok' then 0 else 1),
                                               drift_data = data, drifted = dr,
                                               restored = lg, post_drift = post\<rparr>, s4)))))))"

section \<open>Predicates used in the proofs about normalisation\<close>

text \<open>A text whose only line boundaries are \<^verbatim>\<open>"\n"\<close>, as every joined text is.\<close>

definition only_nl :: "ustr \<Rightarrow> bool" where
  "only_nl s \<longleftrightarrow> (\<forall>c\<in>set s. is_linebreak c \<longrightarrow> c = 10)"

text \<open>
  A text in which no whitespace stands directly before a line boundary or at the
  end: every line of it is already right-stripped.
\<close>

fun trail_free :: "ustr \<Rightarrow> bool" where
  "trail_free [] = True"
| "trail_free [c] = (is_space c \<longrightarrow> is_linebreak c)"
| "trail_free (c # d # cs) = ((is_space c \<and> \<not> is_linebreak c \<longrightarrow> \<not> is_linebreak d) \<and> trail_free (d # cs))"

definition missing_result :: "Args \<Rightarrow> ustr \<Rightarrow> DriftResult" where
  "missing_result args hostname =
     \<lparr>drift = False, reason = lit ''Golden config missing'', diff = [],
      golden_path = golden_file_path (golden_dir args) hostname\<rparr>"

section \<open>A sample fabric, for the concrete instances\<close>

definition demo_diff :: "ustr list \<Rightarrow> ustr list \<Rightarrow> ustr \<Rightarrow> ustr \<Rightarrow> ustr list" where
  "demo_diff a b fromfile tofile =
     (if a = b then [] else [lit ''--- '' @ fromfile, lit ''+++ '' @ tofile])"

definition demo_live :: "nat \<Rightarrow> ustr \<Rightarrow> ustr" where
  "demo_live replaced h =
     (if h = lit ''hA'' then lit ''a '' @ NL @ lit ''b'' @ NL
      else if replaced > 0 then lit ''x'' @ NL
      else lit ''y'' @ NL)"

definition demo_env :: "nat \<Rightarrow> ustr \<Rightarrow> (unit, nat \<times> nat) env" where
  "demo_env fail_from fail_text =
     \<lparr>pyeapi_connect = (\<lambda>h (k, r).
         (if k \<ge> fail_from then Inl (Exception fail_text) else Inr (), (Suc k, r))),
      node_enable = (\<lambda>h cmds text (k, r).
         (Inr [JDict [(lit ''output'', JStr (demo_live r h))]],
          (k, if length cmds = 2 then Suc r else r))),
      read_cpu = (\<lambda>h n. (lit ''n/a'', n)),
      read_temperature = (\<lambda>h n. (lit ''n/a'', n)),
      read_bgp_status = (\<lambda>h n. (lit ''n/a'', n)),
      read_mlag_status = (\<lambda>h n. (lit ''disabled'', n)),
      path_exists = (\<lambda>p x. p = lit ''g/A.cfg'' \<or> p = lit ''g/B.cfg''),
      read_text = (\<lambda>p x. if p = lit ''g/A.cfg'' then Inr (lit ''a '' @ NL @ lit ''b'' @ NL) else Inr (lit ''x'' @ NL)),
      mkdir = (\<lambda>p x. (Inr (), x)),
      copyfile = (\<lambda>p q x. (Inr (), x)),
      unified_diff = demo_diff,
      py_repr = (\<lambda>j. [])\<rparr>"

definition demo_args :: Args where
  "demo_args = \<lparr>group = lit ''FABRIC'', golden_dir = lit ''g'', flash_dir = lit ''f'',
     watch = False, no_restore = False\<rparr>"

definition demo_inventory :: inventory where
  "demo_inventory =
     [(lit ''FABRIC'', \<lparr>hosts = [], children = [lit ''LEAF'', lit ''SPINE''], hostvars = []\<rparr>),
      (lit ''LEAF'', \<lparr>hosts = [lit ''B'', lit ''C''], children = [lit ''FABRIC''], hostvars = []\<rparr>),
      (lit ''SPINE'', \<lparr>hosts = [lit ''B''], children = [lit ''LEAF''], hostvars = []\<rparr>),
      (lit ''_meta'', \<lparr>hosts = [], children = [], hostvars = [(lit ''B'', lit ''hB'')]\<rparr>)]"

definition demo_proc :: Proc where
  "demo_proc = \<lparr>returncode = 0, stdout_json = Inr demo_inventory, stderr = []\<rparr>"

definition demo_state :: "(unit, nat \<times> nat) state" where
  "demo_state = \<lparr>fs = (), net = (0, 0), opened = []\<rparr>"

definition dev :: "string \<Rightarrow> string \<Rightarrow> Device" where
  "dev n h = \<lparr>Device.name = lit n, host = lit h\<rparr>"

definition demo_float :: "ustr \<Rightarrow> pyfloat option" where
  "demo_float t =
     (if t = lit ''81.0'' then Some (Finite 81)
      else if t = lit ''10.0'' then Some (Finite 10)
      else if t = lit ''50.0'' then Some (Finite 50)
      else None)"

section \<open>Facts about splitting, joining and stripping\<close>


lemma linebreak_is_space: "is_linebreak c \<Longrightarrow> is_space c"
  by (auto simp: is_linebreak_def is_space_def)

lemma linebreak_10 [simp]: "is_linebreak 10"
  by (simp add: is_linebreak_def)

lemma join_Cons: "join sep (x # xs) = (if xs = [] then x else x @ sep @ join sep xs)"
  by (cases xs) simp_all

lemma splitlines_eq_Nil [simp]: "splitlines s = [] \<longleftrightarrow> s = []"
  by (cases s) (auto simp: Let_def split: list.splits)

lemma splitlines_unfold:
  "s \<noteq> [] \<Longrightarrow> splitlines s =
     (case dropWhile (\<lambda>x. \<not> is_linebreak x) s of
        [] \<Rightarrow> [takeWhile (\<lambda>x. \<not> is_linebreak x) s]
      | b # rest' \<Rightarrow> takeWhile (\<lambda>x. \<not> is_linebreak x) s #
          splitlines (if b = 13 \<and> rest' \<noteq> [] \<and> hd rest' = 10 then tl rest' else rest'))"
  by (cases s; hypsubst) (simp_all add: Let_def del: takeWhile.simps dropWhile.simps)

lemma splitlines_plain:
  assumes "s \<noteq> []" and "\<forall>c\<in>set s. \<not> is_linebreak c"
  shows "splitlines s = [s]"
proof -
  have "takeWhile (\<lambda>x. \<not> is_linebreak x) s = s" and "dropWhile (\<lambda>x. \<not> is_linebreak x) s = []"
    using assms(2) by simp_all
  then show ?thesis by (simp only: splitlines_unfold[OF assms(1)] list.case)
qed

lemma splitlines_at_nl:
  assumes "\<forall>c\<in>set l. \<not> is_linebreak c"
  shows "splitlines (l @ 10 # r) = l # splitlines r"
proof -
  have tw: "takeWhile (\<lambda>x. \<not> is_linebreak x) (l @ 10 # r) = l"
    using assms by (simp add: takeWhile_append2)
  have dw: "dropWhile (\<lambda>x. \<not> is_linebreak x) (l @ 10 # r) = 10 # r"
    using assms by (simp add: dropWhile_append2)
  have "l @ 10 # r \<noteq> []" by simp
  from splitlines_unfold[OF this] show ?thesis
    by (simp only: tw dw list.case) simp
qed

lemma only_nl_split:
  assumes "only_nl v"
  shows "(\<forall>c\<in>set v. \<not> is_linebreak c) \<or>
         (\<exists>l r. v = l @ 10 # r \<and> (\<forall>c\<in>set l. \<not> is_linebreak c) \<and> only_nl r)"
proof (cases "\<forall>c\<in>set v. \<not> is_linebreak c")
  case True then show ?thesis by simp
next
  case False
  let ?l = "takeWhile (\<lambda>x. \<not> is_linebreak x) v"
  let ?r = "dropWhile (\<lambda>x. \<not> is_linebreak x) v"
  from False have "?r \<noteq> []" by (auto simp: dropWhile_eq_Nil_conv)
  then obtain b r' where r: "?r = b # r'" by (cases ?r) auto
  then have "is_linebreak b" using hd_dropWhile[of "\<lambda>x. \<not> is_linebreak x" v] by auto
  moreover have "b \<in> set v" using r set_dropWhileD[of b "\<lambda>x. \<not> is_linebreak x" v] by simp
  ultimately have b: "b = 10" using assms by (auto simp: only_nl_def)
  have v: "v = ?l @ 10 # r'" using r b takeWhile_dropWhile_id[of "\<lambda>x. \<not> is_linebreak x" v] by simp
  have "\<forall>c\<in>set ?l. \<not> is_linebreak c" by (auto dest: set_takeWhileD)
  moreover have "only_nl r'" using assms v unfolding only_nl_def
    by (metis Un_iff list.set_intros(2) set_append)
  ultimately show ?thesis using v by blast
qed

lemma join_splitlines:
  "only_nl v \<Longrightarrow> join NL (splitlines v) = (if v \<noteq> [] \<and> last v = 10 then butlast v else v)"
proof (induction v rule: length_induct)
  case (1 v)
  from only_nl_split[OF "1.prems"] show ?case
  proof
    assume plain: "\<forall>c\<in>set v. \<not> is_linebreak c"
    show ?thesis
    proof (cases "v = []")
      case True then show ?thesis by simp
    next
      case False
      then have "last v \<in> set v" by simp
      with plain have "last v \<noteq> 10" by (metis linebreak_10)
      then show ?thesis using False plain by (simp add: splitlines_plain)
    qed
  next
    assume "\<exists>l r. v = l @ 10 # r \<and> (\<forall>c\<in>set l. \<not> is_linebreak c) \<and> only_nl r"
    then obtain l r where v: "v = l @ 10 # r" and l: "\<forall>c\<in>set l. \<not> is_linebreak c"
      and r: "only_nl r" by blast
    have "length r < length v" using v by simp
    with "1.IH" r have IH: "join NL (splitlines r) = (if r \<noteq> [] \<and> last r = 10 then butlast r else r)"
      by blast
    show ?thesis
    proof (cases "r = []")
      case True
      then show ?thesis using v l by (simp add: splitlines_at_nl butlast_append)
    next
      case False
      then show ?thesis using v l IH
        by (simp add: splitlines_at_nl join_Cons NL_def butlast_append)
    qed
  qed
qed


lemma splitlines_no_linebreak:
  "l \<in> set (splitlines s) \<Longrightarrow> c \<in> set l \<Longrightarrow> \<not> is_linebreak c"
proof (induction s arbitrary: l rule: length_induct)
  case (1 s)
  show ?case
  proof (cases "s = []")
    case True with "1.prems" show ?thesis by simp
  next
    case False
    let ?t = "takeWhile (\<lambda>x. \<not> is_linebreak x) s"
    let ?d = "dropWhile (\<lambda>x. \<not> is_linebreak x) s"
    show ?thesis
    proof (cases ?d)
      case Nil
      with "1.prems" False have "l = ?t" by (simp add: splitlines_unfold)
      with "1.prems"(2) show ?thesis by (auto dest: set_takeWhileD)
    next
      case (Cons b rest')
      let ?n = "if b = 13 \<and> rest' \<noteq> [] \<and> hd rest' = 10 then tl rest' else rest'"
      from Cons "1.prems" False have "l = ?t \<or> l \<in> set (splitlines ?n)"
        by (simp add: splitlines_unfold)
      then show ?thesis
      proof
        assume "l = ?t"
        with "1.prems"(2) show ?thesis by (auto dest: set_takeWhileD)
      next
        assume l: "l \<in> set (splitlines ?n)"
        have "length ?d \<le> length s" by (rule length_dropWhile_le)
        with Cons have "length rest' < length s" by simp
        moreover have "length ?n \<le> length rest'" by simp
        ultimately have "length ?n < length s" by linarith
        with "1.IH" l "1.prems"(2) show ?thesis by blast
      qed
    qed
  qed
qed

lemma set_join: "set (join sep ls) \<subseteq> set sep \<union> \<Union> (set ` set ls)"
  by (induction sep ls rule: join.induct) auto

lemma only_nl_join:
  assumes "\<forall>l\<in>set ls. \<forall>c\<in>set l. \<not> is_linebreak c"
  shows "only_nl (join NL ls)"
  unfolding only_nl_def
proof
  fix c assume "c \<in> set (join NL ls)"
  with set_join[of NL ls] have "c \<in> set NL \<or> (\<exists>l\<in>set ls. c \<in> set l)" by auto
  with assms show "is_linebreak c \<longrightarrow> c = 10" by (auto simp: NL_def)
qed

lemma set_lstrip: "set (lstrip s) \<subseteq> set s"
  by (auto simp: lstrip_def dest: set_dropWhileD)

lemma set_rstrip: "set (rstrip s) \<subseteq> set s"
  by (auto simp: rstrip_def dest: set_dropWhileD)

lemma set_strip: "set (strip s) \<subseteq> set s"
  unfolding strip_def using set_lstrip set_rstrip by blast

lemma only_nl_strip: "only_nl s \<Longrightarrow> only_nl (strip s)"
  using set_strip[of s] by (auto simp: only_nl_def)

lemma rstrip_last: "rstrip s = [] \<or> \<not> is_space (last (rstrip s))"
proof (cases "dropWhile is_space (rev s)")
  case Nil then show ?thesis by (simp add: rstrip_def)
next
  case (Cons x xs)
  then have "\<not> is_space x" using hd_dropWhile[of is_space "rev s"] by auto
  with Cons show ?thesis by (simp add: rstrip_def)
qed

lemma rstrip_id: "s = [] \<or> \<not> is_space (last s) \<Longrightarrow> rstrip s = s"
  by (cases s rule: rev_cases) (auto simp: rstrip_def)

lemma lstrip_id: "s = [] \<or> \<not> is_space (hd s) \<Longrightarrow> lstrip s = s"
  by (cases s) (auto simp: lstrip_def)

lemma lstrip_hd: "lstrip s = [] \<or> \<not> is_space (hd (lstrip s))"
  unfolding lstrip_def using hd_dropWhile[of is_space s] by blast

lemma rstrip_prefix: "\<exists>w. s = rstrip s @ w"
proof -
  have "rev s = takeWhile is_space (rev s) @ dropWhile is_space (rev s)" by simp
  then have "s = rev (dropWhile is_space (rev s)) @ rev (takeWhile is_space (rev s))"
    by (metis rev_append rev_rev_ident)
  then show ?thesis unfolding rstrip_def by blast
qed

lemma lstrip_suffix: "\<exists>w. s = w @ lstrip s"
  unfolding lstrip_def by (metis takeWhile_dropWhile_id)

lemma strip_hd: "strip s = [] \<or> \<not> is_space (hd (strip s))"
proof (cases "strip s = []")
  case True then show ?thesis by simp
next
  case False
  obtain w where w: "lstrip s = rstrip (lstrip s) @ w" using rstrip_prefix by blast
  from False have "hd (lstrip s) = hd (strip s)" unfolding strip_def
    by (metis w hd_append2)
  moreover from False w have "lstrip s \<noteq> []" unfolding strip_def by auto
  ultimately show ?thesis using lstrip_hd[of s] by auto
qed

lemma strip_last: "strip s = [] \<or> \<not> is_space (last (strip s))"
  unfolding strip_def by (rule rstrip_last)

lemma strip_strip: "strip (strip s) = strip s"
proof -
  have "lstrip (strip s) = strip s" using strip_hd[of s] by (rule lstrip_id)
  moreover have "rstrip (strip s) = strip s" using strip_last[of s] by (rule rstrip_id)
  ultimately show ?thesis by (simp add: strip_def[of "strip s"])
qed

lemma golden_fixed:
  assumes "only_nl u" and "strip u = u"
  shows "strip (join NL (splitlines (u @ NL))) @ NL = u @ NL"
proof -
  have "only_nl (u @ NL)" using assms(1) by (simp add: only_nl_def NL_def)
  then have "join NL (splitlines (u @ NL)) = u"
    by (simp add: join_splitlines) (simp add: NL_def)
  with assms(2) show ?thesis by simp
qed

lemma normalize_golden_idem: "normalize_golden (normalize_golden s) = normalize_golden s"
proof -
  let ?u = "strip (join NL (splitlines s))"
  have "only_nl (join NL (splitlines s))"
    by (rule only_nl_join) (blast dest: splitlines_no_linebreak)
  then have "only_nl ?u" by (rule only_nl_strip)
  moreover have "strip ?u = ?u" by (rule strip_strip)
  ultimately show ?thesis unfolding normalize_golden_def by (rule golden_fixed)
qed

lemma trail_free_tl: "trail_free (x # xs) \<Longrightarrow> trail_free xs"
  by (cases xs) auto

lemma trail_free_suffix: "trail_free (a @ b) \<Longrightarrow> trail_free b"
  by (induction a) (auto dest: trail_free_tl)

lemma trail_free_first_line:
  "trail_free (l @ r) \<Longrightarrow> \<forall>c\<in>set l. \<not> is_linebreak c \<Longrightarrow> r = [] \<or> is_linebreak (hd r)
     \<Longrightarrow> l = [] \<or> \<not> is_space (last l)"
proof (induction l)
  case Nil then show ?case by simp
next
  case (Cons x l)
  show ?case
  proof (cases l)
    case Nil
    with Cons.prems show ?thesis by (cases r) auto
  next
    case (Cons y l')
    with Cons.prems Cons.IH show ?thesis by auto
  qed
qed

lemma trail_free_nl_Cons: "trail_free r \<Longrightarrow> trail_free (10 # r)"
  by (cases r) simp_all

lemma trail_free_line_Cons:
  "\<forall>c\<in>set l. \<not> is_linebreak c \<Longrightarrow> l = [] \<or> \<not> is_space (last l) \<Longrightarrow> trail_free r
     \<Longrightarrow> trail_free (l @ 10 # r)"
proof (induction l)
  case Nil then show ?case by (simp add: trail_free_nl_Cons)
next
  case (Cons x l)
  then show ?case by (cases l) (auto split: if_splits)
qed

lemma trail_free_line:
  "\<forall>c\<in>set l. \<not> is_linebreak c \<Longrightarrow> l = [] \<or> \<not> is_space (last l) \<Longrightarrow> trail_free l"
proof (induction l)
  case Nil then show ?case by simp
next
  case (Cons x l)
  then show ?case by (cases l) (auto split: if_splits)
qed

lemma trail_free_prefix:
  "trail_free (a @ w) \<Longrightarrow> a = [] \<or> \<not> is_space (last a) \<Longrightarrow> trail_free (a @ [10])"
proof (induction a)
  case Nil then show ?case by simp
next
  case (Cons x a)
  then show ?case by (cases a) (auto split: if_splits)
qed

lemma trail_free_join:
  assumes "\<forall>l\<in>set ls. (\<forall>c\<in>set l. \<not> is_linebreak c) \<and> (l = [] \<or> \<not> is_space (last l))"
  shows "trail_free (join NL ls)"
  using assms
proof (induction ls)
  case Nil then show ?case by simp
next
  case (Cons l ls)
  show ?case
  proof (cases "ls = []")
    case True
    with Cons.prems show ?thesis by (simp add: trail_free_line)
  next
    case False
    from Cons have "trail_free (join NL ls)" by simp
    with Cons.prems False show ?thesis
      by (simp add: join_Cons NL_def trail_free_line_Cons)
  qed
qed

lemma trail_free_strip:
  assumes "trail_free t"
  shows "trail_free (strip t @ NL)"
proof -
  obtain w where "t = w @ lstrip t" using lstrip_suffix by blast
  with assms have "trail_free (lstrip t)" by (metis trail_free_suffix)
  moreover obtain w' where "lstrip t = strip t @ w'" unfolding strip_def using rstrip_prefix by blast
  ultimately have "trail_free (strip t @ w')" by simp
  then show ?thesis unfolding NL_def using strip_last[of t] by (rule trail_free_prefix)
qed

lemma trail_free_lines:
  "trail_free v \<Longrightarrow> l \<in> set (splitlines v) \<Longrightarrow> rstrip l = l"
proof (induction v arbitrary: l rule: length_induct)
  case (1 v)
  show ?case
  proof (cases "v = []")
    case True with "1.prems" show ?thesis by simp
  next
    case False
    let ?t = "takeWhile (\<lambda>x. \<not> is_linebreak x) v"
    let ?d = "dropWhile (\<lambda>x. \<not> is_linebreak x) v"
    have v: "v = ?t @ ?d" by simp
    have t_nb: "\<forall>c\<in>set ?t. \<not> is_linebreak c" by (auto dest: set_takeWhileD)
    have "?d = [] \<or> is_linebreak (hd ?d)" using hd_dropWhile[of "\<lambda>x. \<not> is_linebreak x" v] by auto
    with "1.prems"(1) t_nb have first: "rstrip ?t = ?t"
      by (intro rstrip_id trail_free_first_line[of ?t ?d]) simp_all
    show ?thesis
    proof (cases ?d)
      case Nil
      with "1.prems" False have "l = ?t" by (simp add: splitlines_unfold)
      with first show ?thesis by simp
    next
      case (Cons b rest')
      let ?n = "if b = 13 \<and> rest' \<noteq> [] \<and> hd rest' = 10 then tl rest' else rest'"
      from Cons "1.prems" False have "l = ?t \<or> l \<in> set (splitlines ?n)"
        by (simp add: splitlines_unfold)
      then show ?thesis
      proof
        assume "l = ?t" with first show ?thesis by simp
      next
        assume l: "l \<in> set (splitlines ?n)"
        have "length ?d \<le> length v" by (rule length_dropWhile_le)
        with Cons have "length rest' < length v" by simp
        moreover have "length ?n \<le> length rest'" by simp
        ultimately have len: "length ?n < length v" by linarith
        have "\<exists>p. v = p @ ?n"
        proof (cases "b = 13 \<and> rest' \<noteq> [] \<and> hd rest' = 10")
          case True
          then have "rest' = hd rest' # tl rest'" by (cases rest') auto
          then have "v = (?t @ [b, hd rest']) @ tl rest'" using v Cons by (metis append.assoc append_Cons append_Nil)
          with True show ?thesis by (metis (full_types))
        next
          case False
          have "v = (?t @ [b]) @ rest'" using v Cons by (metis append.assoc append_Cons append_Nil)
          with False show ?thesis by (metis (full_types))
        qed
        then obtain p where "v = p @ ?n" by blast
        with "1.prems"(1) have "trail_free ?n" by (metis trail_free_suffix)
        with "1.IH" len l show ?thesis by blast
      qed
    qed
  qed
qed

lemma normalize_running_idem: "normalize_running (normalize_running s) = normalize_running s"
proof -
  let ?t = "join NL (map rstrip (splitlines s))"
  let ?u = "strip ?t"
  have nb: "\<forall>l\<in>set (map rstrip (splitlines s)). \<forall>c\<in>set l. \<not> is_linebreak c"
    using set_rstrip by (auto dest: splitlines_no_linebreak)
  then have "only_nl ?t" by (rule only_nl_join)
  then have u_nl: "only_nl ?u" by (rule only_nl_strip)
  have "trail_free ?t"
    by (rule trail_free_join) (use nb rstrip_last in auto)
  then have "trail_free (?u @ NL)" by (rule trail_free_strip)
  then have "map rstrip (splitlines (?u @ NL)) = splitlines (?u @ NL)"
    by (simp add: map_idI trail_free_lines)
  moreover have "strip (join NL (splitlines (?u @ NL))) @ NL = ?u @ NL"
    using u_nl strip_strip by (rule golden_fixed)
  ultimately show ?thesis unfolding normalize_running_def by simp
qed

section \<open>Facts about the detector, the inventory and the driver\<close>

lemma with_net_frame:
  "with_net f s = (r, s') \<Longrightarrow> fs s' = fs s \<and> opened s' = opened s"
  by (auto simp: with_net_def split: prod.splits)

lemma node_for_device_frame:
  "node_for_device env d s = (r, s') \<Longrightarrow> fs s' = fs s \<and> opened s' = opened s @ [d]"
  by (auto simp: node_for_device_def with_net_def split: prod.splits sum.splits)

lemma command_text_frame:
  "command_text env nd c s = (r, s') \<Longrightarrow> fs s' = fs s \<and> opened s' = opened s"
  by (auto simp: command_text_def split: prod.splits sum.splits list.splits dest: with_net_frame)

lemma running_config_frame:
  "running_config env nd s = (r, s') \<Longrightarrow> fs s' = fs s \<and> opened s' = opened s"
  by (auto simp: running_config_def split: prod.splits sum.splits dest: command_text_frame)

lemma detect_device_missing:
  "\<not> path_exists env (golden_file_path (golden_dir args) (Device.name d)) (fs s)
     \<Longrightarrow> detect_device env args d s = (missing_result args (Device.name d), s)"
  by (simp add: detect_device_def missing_result_def Let_def)

lemma detect_device_present:
  assumes "path_exists env (golden_file_path (golden_dir args) (Device.name d)) (fs s)"
    and "detect_device env args d s = (r, s')"
  shows "fs s' = fs s \<and> opened s' = opened s @ [d] \<and>
         golden_path r = golden_file_path (golden_dir args) (Device.name d) \<and>
         ((\<not> drift r \<and> diff r = [] \<and>
             (\<exists>exc. reason r = lit ''Error reading running-config: '' @ str_of exc)) \<or>
          (reason r = [] \<and> drift r = (diff r \<noteq> [])))"
proof (cases "node_for_device env d s")
  case (Pair a s1)
  note n1 = node_for_device_frame[OF Pair]
  show ?thesis
  proof (cases a)
    case (Inl exc)
    with assms Pair n1 show ?thesis
      by (auto simp: detect_device_def Let_def read_error_def)
  next
    case (Inr nd)
    show ?thesis
    proof (cases "running_config env nd s1")
      case (Pair b s2)
      note n2 = running_config_frame[OF Pair]
      from assms \<open>node_for_device env d s = (a, s1)\<close> Inr Pair n1 n2 show ?thesis
        by (auto simp: detect_device_def Let_def read_error_def split: sum.splits)
    qed
  qed
qed

lemma detect_device_invariant:
  assumes "detect_device env args d s = (r, s')"
  shows "\<not> (drift r \<and> reason r \<noteq> []) \<and> (\<not> drift r \<longrightarrow> diff r = [])"
proof (cases "path_exists env (golden_file_path (golden_dir args) (Device.name d)) (fs s)")
  case True
  from detect_device_present[OF True assms] show ?thesis by auto
next
  case False
  from detect_device_missing[OF False, of ] assms show ?thesis
    by (auto simp: missing_result_def)
qed

lemma set_update_subset: "set (AList.update k v al) \<subseteq> insert (k, v) (set al)"
  by (induction al) auto

lemma detect_loop_invariant:
  assumes "detect_loop env args devices res s = (res', s')"
    and "\<forall>(n, r) \<in> set res. P r"
    and "\<And>d s r s'. detect_device env args d s = (r, s') \<Longrightarrow> P r"
  shows "\<forall>(n, r) \<in> set res'. P r"
  using assms(1,2)
proof (induction devices arbitrary: res s)
  case Nil then show ?case by simp
next
  case (Cons d ds)
  obtain r s1 where step: "detect_device env args d s = (r, s1)" by (cases "detect_device env args d s")
  with Cons.prems have rest: "detect_loop env args ds (AList.update (Device.name d) r res) s1 = (res', s')"
    by simp
  have "P r" using step by (rule assms(3))
  with Cons.prems(2) have "\<forall>(n, r) \<in> set (AList.update (Device.name d) r res). P r"
    using set_update_subset[of "Device.name d" r res] by auto
  with Cons.IH rest show ?case by blast
qed

lemma detect_loop_keys:
  "detect_loop env args devices res s = (res', s') \<Longrightarrow>
     fst ` set res' = fst ` set res \<union> Device.name ` set devices \<and>
     (distinct (map fst res) \<longrightarrow> distinct (map fst res'))"
proof (induction devices arbitrary: res s)
  case Nil then show ?case by simp
next
  case (Cons d ds)
  obtain r s1 where step: "detect_device env args d s = (r, s1)" by (cases "detect_device env args d s")
  with Cons.prems have rest: "detect_loop env args ds (AList.update (Device.name d) r res) s1 = (res', s')"
    by simp
  have "fst ` set (AList.update (Device.name d) r res) = insert (Device.name d) (fst ` set res)"
    using dom_update[of "Device.name d" r res] by (simp add: dom_map_of_conv_image_fst)
  moreover have "distinct (map fst res) \<Longrightarrow> distinct (map fst (AList.update (Device.name d) r res))"
    by (rule distinct_update)
  ultimately show ?case using Cons.IH[OF rest] by auto
qed

lemma filter_drifted_total:
  "Device.name ` set devices \<subseteq> fst ` set data \<Longrightarrow> \<exists>dr. filter_drifted data devices = Inr dr"
proof (induction devices)
  case Nil then show ?case by simp
next
  case (Cons d ds)
  then obtain dr where "filter_drifted data ds = Inr dr" by auto
  moreover from Cons.prems have "map_of data (Device.name d) \<noteq> None"
    by (simp add: map_of_eq_None_iff)
  ultimately show ?case by auto
qed

lemma detect_drift_keys_aux:
  "detect_drift env args devices s = (res, s') \<Longrightarrow> fst ` set res = Device.name ` set devices"
  using detect_loop_keys[of env args devices "[]" s res s'] by (simp add: detect_drift_def)

lemma main_returns: "\<exists>run s'. main env args proc oper s = (Inr run, s')"
proof (cases "load_inventory_devices proc (group args)")
  case (Inl exc)
  then show ?thesis by (simp add: main_def)
next
  case (Inr devices)
  show ?thesis
  proof (cases "devices = []")
    case True
    with Inr show ?thesis by (simp add: main_def)
  next
    case False
    define s1 where "s1 = (if watch args then watch_loop env (cycles oper) devices s
                           else snd (collect_all env devices s))"
    obtain data s2 where det: "detect_drift env args devices s1 = (data, s2)"
      by (cases "detect_drift env args devices s1")
    from detect_drift_keys_aux[OF det] obtain dr where "filter_drifted data devices = Inr dr"
      using filter_drifted_total[of devices data] by auto
    with Inr False det show ?thesis
      by (simp add: main_def Let_def s1_def split: prod.splits)
  qed
qed

text \<open>
  C10. For every list of devices, the mapping returned by \<open>detect_drift\<close> has
  exactly the names of the input devices as its keys, each key once, and the
  lookups \<^verbatim>\<open>drift_data[d.name]\<close> made by \<open>main\<close> for the input devices never
  raise \<^verbatim>\<open>KeyError\<close>: \<open>filter_drifted\<close> returns a list, and \<open>main\<close> ends with an
  exit code.
\<close>

theorem C10_detect_drift_keys:
  "fst ` set (fst (detect_drift env args devices s)) = Device.name ` set devices \<and>
   distinct (map fst (fst (detect_drift env args devices s))) \<and>
   (\<exists>dr. filter_drifted (fst (detect_drift env args devices s)) devices = Inr dr) \<and>
   (\<exists>run s'. main env args proc oper s = (Inr run, s'))"
proof -
  obtain res s' where run: "detect_loop env args devices [] s = (res, s')"
    by (cases "detect_loop env args devices [] s")
  from detect_loop_keys[OF run]
  have keys: "fst ` set res = Device.name ` set devices" and dist: "distinct (map fst res)" by auto
  from keys have "\<exists>dr. filter_drifted res devices = Inr dr"
    by (intro filter_drifted_total) simp
  with keys dist run main_returns show ?thesis by (simp add: detect_drift_def)
qed

text \<open>
  C4. Every result of a detection pass is in exactly one of the three states
  drifted (\<open>drift\<close> true), unknown (\<open>reason\<close> non-empty) and clean (neither);
  drift and unknown never hold together, and an unknown or clean result has no
  diff lines.
\<close>

theorem C4_drift_result_invariant:
  assumes "(n, r) \<in> set (fst (detect_drift env args devices s))"
  shows "(let drifted = drift r; unknown = (reason r \<noteq> []);
              clean = (\<not> drift r \<and> reason r = [])
          in \<not> (drifted \<and> unknown) \<and>
             ((drifted \<and> \<not> unknown \<and> \<not> clean) \<or>
              (\<not> drifted \<and> unknown \<and> \<not> clean) \<or>
              (\<not> drifted \<and> \<not> unknown \<and> clean)) \<and>
             (unknown \<or> clean \<longrightarrow> diff r = []))"
proof -
  obtain res s' where run: "detect_loop env args devices [] s = (res, s')"
    by (cases "detect_loop env args devices [] s")
  have "\<forall>(n, r) \<in> set res. \<not> (drift r \<and> reason r \<noteq> []) \<and> (\<not> drift r \<longrightarrow> diff r = [])"
    by (rule detect_loop_invariant[OF run]) (simp, rule detect_device_invariant)
  with assms run show ?thesis by (auto simp: detect_drift_def Let_def)
qed

lemma detect_device_frame:
  assumes "detect_device env args d s = (r, s')"
  shows "fs s' = fs s \<and>
         (\<exists>new. opened s' = opened s @ new \<and>
            (\<forall>x\<in>set new. x = d \<and> path_exists env (golden_file_path (golden_dir args) (Device.name d)) (fs s)))"
proof (cases "path_exists env (golden_file_path (golden_dir args) (Device.name d)) (fs s)")
  case True
  from detect_device_present[OF True assms] True show ?thesis by auto
next
  case False
  from detect_device_missing[OF False] assms show ?thesis by auto
qed

lemma detect_loop_missing:
  assumes "detect_loop env args devices res s = (res', s')"
    and "\<not> path_exists env (golden_file_path (golden_dir args) k) (fs s)"
  shows "fs s' = fs s \<and>
         (\<exists>new. opened s' = opened s @ new \<and> (\<forall>x\<in>set new. Device.name x \<noteq> k)) \<and>
         (map_of res k = Some (missing_result args k) \<or> k \<in> Device.name ` set devices
            \<longrightarrow> map_of res' k = Some (missing_result args k))"
  using assms
proof (induction devices arbitrary: res s)
  case Nil then show ?case by simp
next
  case (Cons d ds)
  obtain r s1 where step: "detect_device env args d s = (r, s1)" by (cases "detect_device env args d s")
  with Cons.prems have rest: "detect_loop env args ds (AList.update (Device.name d) r res) s1 = (res', s')"
    by simp
  from detect_device_frame[OF step] obtain new1 where
    f1: "fs s1 = fs s" and o1: "opened s1 = opened s @ new1"
    and n1: "\<forall>x\<in>set new1. x = d \<and> path_exists env (golden_file_path (golden_dir args) (Device.name d)) (fs s)"
    by blast
  from Cons.prems(2) f1 have miss1: "\<not> path_exists env (golden_file_path (golden_dir args) k) (fs s1)" by simp
  from Cons.IH[OF rest miss1] obtain new2 where
    f2: "fs s' = fs s1" and o2: "opened s' = opened s1 @ new2" and n2: "\<forall>x\<in>set new2. Device.name x \<noteq> k"
    and m2: "map_of (AList.update (Device.name d) r res) k = Some (missing_result args k) \<or> k \<in> Device.name ` set ds
            \<longrightarrow> map_of res' k = Some (missing_result args k)"
    by blast
  have new1k: "\<forall>x\<in>set new1. Device.name x \<noteq> k" using n1 Cons.prems(2) by auto
  have upd: "map_of res k = Some (missing_result args k) \<or> Device.name d = k
               \<Longrightarrow> map_of (AList.update (Device.name d) r res) k = Some (missing_result args k)"
  proof (cases "Device.name d = k")
    case True
    with Cons.prems(2) have "\<not> path_exists env (golden_file_path (golden_dir args) (Device.name d)) (fs s)"
      by simp
    from detect_device_missing[OF this] step True show ?thesis by (simp add: update_conv')
  next
    case False
    assume "map_of res k = Some (missing_result args k) \<or> Device.name d = k"
    with False show ?thesis by (simp add: update_conv')
  qed
  have "opened s' = opened s @ (new1 @ new2)" using o1 o2 by simp
  moreover have "\<forall>x\<in>set (new1 @ new2). Device.name x \<noteq> k" using new1k n2 by auto
  ultimately have "\<exists>new. opened s' = opened s @ new \<and> (\<forall>x\<in>set new. Device.name x \<noteq> k)" by blast
  moreover have "fs s' = fs s" using f1 f2 by simp
  moreover have "map_of res k = Some (missing_result args k) \<or> k \<in> Device.name ` set (d # ds)
            \<longrightarrow> map_of res' k = Some (missing_result args k)"
    using upd m2 by auto
  ultimately show ?case by blast
qed

text \<open>
  C7. A device of the pass whose golden file does not exist gets the result
  \<^verbatim>\<open>reason = "Golden config missing"\<close>, \<^verbatim>\<open>drift = False\<close> and an empty diff, and
  no session is opened for it: the sessions opened during the pass do not
  contain the device.
\<close>

theorem C7_missing_baseline:
  assumes "d \<in> set devices"
    and "\<not> path_exists env (golden_file_path (golden_dir args) (Device.name d)) (fs s)"
  shows "map_of (fst (detect_drift env args devices s)) (Device.name d) =
           Some \<lparr>drift = False, reason = lit ''Golden config missing'', diff = [],
                 golden_path = golden_file_path (golden_dir args) (Device.name d)\<rparr> \<and>
         (\<exists>new. opened (snd (detect_drift env args devices s)) = opened s @ new \<and> d \<notin> set new)"
proof -
  obtain res s' where run: "detect_loop env args devices [] s = (res, s')"
    by (cases "detect_loop env args devices [] s")
  from detect_loop_missing[OF run assms(2)] assms(1) obtain new where
    "opened s' = opened s @ new" and "\<forall>x\<in>set new. Device.name x \<noteq> Device.name d"
    and "map_of res (Device.name d) = Some (missing_result args (Device.name d))"
    by auto
  then have "map_of res (Device.name d) = Some (missing_result args (Device.name d))"
    and "\<exists>new. opened s' = opened s @ new \<and> d \<notin> set new" by auto
  with run show ?thesis by (simp add: detect_drift_def missing_result_def)
qed

lemmas text_defs = normalize_running_def normalize_golden_def strip_def lstrip_def rstrip_def
  is_space_def is_linebreak_def NL_def
lemmas session_defs = with_net_def with_fs_def node_for_device_def command_text_def command_json_def
  text_result_def json_result_def get_str_def py_str_def running_config_def load_golden_config_def
  config_diff_def golden_file_path_def
lemmas demo_defs = demo_env_def demo_args_def demo_state_def demo_live_def demo_diff_def dev_def

lemma demo_detect_drift:
  "detect_drift (demo_env 9 []) demo_args [dev ''A'' ''hA'', dev ''B'' ''hB'', dev ''C'' ''hC''] demo_state
  = ([(lit ''A'', \<lparr>drift = True, reason = [], diff = [lit ''--- golden/A.cfg'', lit ''+++ running/A''], golden_path = lit ''g/A.cfg''\<rparr>),
      (lit ''B'', \<lparr>drift = True, reason = [], diff = [lit ''--- golden/B.cfg'', lit ''+++ running/B''], golden_path = lit ''g/B.cfg''\<rparr>),
      (lit ''C'', \<lparr>drift = False, reason = lit ''Golden config missing'', diff = [], golden_path = lit ''g/C.cfg''\<rparr>)],
     \<lparr>fs = (), net = (2, 0), opened = [dev ''A'' ''hA'', dev ''B'' ''hB'']\<rparr>)"
  by (simp add: detect_drift_def detect_device_def read_error_def Let_def text_defs session_defs demo_defs)

text \<open>
  C7 on the sample fabric: device C has no golden file.
\<close>

theorem C7_missing_baseline_witness:
  "dev ''C'' ''hC'' \<in> set [dev ''A'' ''hA'', dev ''B'' ''hB'', dev ''C'' ''hC''] \<and>
   \<not> path_exists (demo_env 9 []) (golden_file_path (golden_dir demo_args) (Device.name (dev ''C'' ''hC'')))
        (fs demo_state) \<and>
   map_of (fst (detect_drift (demo_env 9 []) demo_args
                 [dev ''A'' ''hA'', dev ''B'' ''hB'', dev ''C'' ''hC''] demo_state)) (lit ''C'') =
     Some \<lparr>drift = False, reason = lit ''Golden config missing'', diff = [],
           golden_path = lit ''g/C.cfg''\<rparr> \<and>
   (\<exists>new. opened (snd (detect_drift (demo_env 9 []) demo_args
                 [dev ''A'' ''hA'', dev ''B'' ''hB'', dev ''C'' ''hC''] demo_state)) = opened demo_state @ new \<and>
      dev ''C'' ''hC'' \<notin> set new)"
proof -
  have a: "dev ''C'' ''hC'' \<in> set [dev ''A'' ''hA'', dev ''B'' ''hB'', dev ''C'' ''hC'']" by simp
  have b: "\<not> path_exists (demo_env 9 []) (golden_file_path (golden_dir demo_args) (Device.name (dev ''C'' ''hC'')))
        (fs demo_state)"
    by (simp add: demo_env_def demo_args_def golden_file_path_def dev_def)
  have c: "golden_file_path (golden_dir demo_args) (lit ''C'') = lit ''g/C.cfg''"
    by (simp add: demo_args_def golden_file_path_def)
  have d: "Device.name (dev ''C'' ''hC'') = lit ''C''" by (simp add: dev_def)
  from C7_missing_baseline[OF a b] a b show ?thesis
    by (simp only: d c) blast
qed

text \<open>
  C4 on the sample fabric: device B is drifted, with no reason.
\<close>

theorem C4_drift_result_invariant_witness:
  "(lit ''B'', \<lparr>drift = True, reason = [], diff = [lit ''--- golden/B.cfg'', lit ''+++ running/B''],
      golden_path = lit ''g/B.cfg''\<rparr>)
     \<in> set (fst (detect_drift (demo_env 9 []) demo_args [dev ''A'' ''hA'', dev ''B'' ''hB'', dev ''C'' ''hC''] demo_state)) \<and>
   drift \<lparr>drift = True, reason = [], diff = [lit ''--- golden/B.cfg'', lit ''+++ running/B''],
      golden_path = lit ''g/B.cfg''\<rparr> \<and>
   reason \<lparr>drift = True, reason = [], diff = [lit ''--- golden/B.cfg'', lit ''+++ running/B''],
      golden_path = lit ''g/B.cfg''\<rparr> = []"
proof -
  have a: "(lit ''B'', \<lparr>drift = True, reason = [], diff = [lit ''--- golden/B.cfg'', lit ''+++ running/B''],
      golden_path = lit ''g/B.cfg''\<rparr>)
     \<in> set (fst (detect_drift (demo_env 9 []) demo_args [dev ''A'' ''hA'', dev ''B'' ''hB'', dev ''C'' ''hC''] demo_state))"
    unfolding demo_detect_drift by simp
  from C4_drift_result_invariant[OF a] a show ?thesis by (simp add: Let_def)
qed

text \<open>
  C3, as the code has it. \<open>collect_snapshot\<close> always returns a snapshot. When
  connecting or the \<^verbatim>\<open>show version\<close> query raises, the snapshot is unreachable,
  every fact field is \<^verbatim>\<open>"n/a"\<close>, and \<open>error\<close> is the text of the exception as it
  is: non-empty exactly when that text is.
\<close>

theorem C3_collect_snapshot:
  "(\<not> reachable (fst (collect_snapshot env device s)) \<longrightarrow>
      model (fst (collect_snapshot env device s)) = lit ''n/a'' \<and>
      version (fst (collect_snapshot env device s)) = lit ''n/a'' \<and>
      uptime (fst (collect_snapshot env device s)) = lit ''n/a'' \<and>
      cpu (fst (collect_snapshot env device s)) = lit ''n/a'' \<and>
      temperature (fst (collect_snapshot env device s)) = lit ''n/a'' \<and>
      bgp (fst (collect_snapshot env device s)) = lit ''n/a'' \<and>
      mlag (fst (collect_snapshot env device s)) = lit ''n/a'') \<and>
   (\<forall>exc s1. node_for_device env device s = (Inl exc, s1) \<longrightarrow>
      \<not> reachable (fst (collect_snapshot env device s)) \<and>
      error (fst (collect_snapshot env device s)) = str_of exc) \<and>
   (\<forall>nd s1 exc s2. node_for_device env device s = (Inr nd, s1) \<and>
        command_json env nd (lit ''show version'') s1 = (Inl exc, s2) \<longrightarrow>
      \<not> reachable (fst (collect_snapshot env device s)) \<and>
      error (fst (collect_snapshot env device s)) = str_of exc) \<and>
   (\<forall>nd s1 ver s2. node_for_device env device s = (Inr nd, s1) \<and>
        command_json env nd (lit ''show version'') s1 = (Inr ver, s2) \<longrightarrow>
      reachable (fst (collect_snapshot env device s)))"
  by (auto simp: collect_snapshot_def unreachable_def split: prod.splits sum.splits)

text \<open>
  C3 on the sample fabric: the connection times out.
\<close>

theorem C3_collect_snapshot_witness:
  "node_for_device (demo_env 0 (lit ''timed out'')) (dev ''A'' ''hA'') demo_state =
     (Inl (Exception (lit ''timed out'')), \<lparr>fs = (), net = (1, 0), opened = [dev ''A'' ''hA'']\<rparr>) \<and>
   \<not> reachable (fst (collect_snapshot (demo_env 0 (lit ''timed out'')) (dev ''A'' ''hA'') demo_state)) \<and>
   cpu (fst (collect_snapshot (demo_env 0 (lit ''timed out'')) (dev ''A'' ''hA'') demo_state)) = lit ''n/a'' \<and>
   error (fst (collect_snapshot (demo_env 0 (lit ''timed out'')) (dev ''A'' ''hA'') demo_state)) = lit ''timed out''"
proof -
  have a: "node_for_device (demo_env 0 (lit ''timed out'')) (dev ''A'' ''hA'') demo_state =
     (Inl (Exception (lit ''timed out'')), \<lparr>fs = (), net = (1, 0), opened = [dev ''A'' ''hA'']\<rparr>)"
    by (simp add: session_defs demo_defs)
  from C3_collect_snapshot[of "demo_env 0 (lit ''timed out'')" "dev ''A'' ''hA''" demo_state] a
  show ?thesis by simp
qed

text \<open>
  C3 as stated fails where the exception has no text (\<^verbatim>\<open>str(TimeoutError())\<close> is
  the empty string): the device is unreachable and \<open>error\<close> is empty.
\<close>

theorem C3_empty_error_counterexample:
  "\<not> reachable (fst (collect_snapshot (demo_env 0 []) (dev ''A'' ''hA'') demo_state)) \<and>
   \<not> error (fst (collect_snapshot (demo_env 0 []) (dev ''A'' ''hA'') demo_state)) \<noteq> []"
  by (simp add: collect_snapshot_def unreachable_def session_defs demo_defs)

text \<open>
  C5. \<open>health_color\<close> is red when the CPU value or the temperature value parses
  and is at least 80, yellow when neither parses, and green otherwise; so it is
  red for 81 and 10, red for 10 and 81, yellow for two unavailable values and
  green for 50 and 50.
\<close>

theorem C5_health_color:
  "health_color float cpu_text temp_text =
     (let cpu_value = float (rstrip_chars cpu_text (lit ''%''));
          temp_value = float (rstrip_chars temp_text (lit ''C''))
      in if (\<exists>x. cpu_value = Some x \<and> float_ge x 80) \<or> (\<exists>x. temp_value = Some x \<and> float_ge x 80)
         then lit ''red''
         else if cpu_value = None \<and> temp_value = None then lit ''yellow''
         else lit ''green'') \<and>
   (float (rstrip_chars cpu_text (lit ''%'')) = Some (Finite 81) \<and>
    float (rstrip_chars temp_text (lit ''C'')) = Some (Finite 10)
      \<longrightarrow> health_color float cpu_text temp_text = lit ''red'') \<and>
   (float (rstrip_chars cpu_text (lit ''%'')) = Some (Finite 10) \<and>
    float (rstrip_chars temp_text (lit ''C'')) = Some (Finite 81)
      \<longrightarrow> health_color float cpu_text temp_text = lit ''red'') \<and>
   (float (rstrip_chars cpu_text (lit ''%'')) = None \<and>
    float (rstrip_chars temp_text (lit ''C'')) = None
      \<longrightarrow> health_color float cpu_text temp_text = lit ''yellow'') \<and>
   (float (rstrip_chars cpu_text (lit ''%'')) = Some (Finite 50) \<and>
    float (rstrip_chars temp_text (lit ''C'')) = Some (Finite 50)
      \<longrightarrow> health_color float cpu_text temp_text = lit ''green'')"
  by (auto simp: health_color_def Let_def)

lemma demo_parse:
  "demo_float (rstrip_chars (lit ''81.0%'') (lit ''%'')) = Some (Finite 81)"
  "demo_float (rstrip_chars (lit ''10.0C'') (lit ''C'')) = Some (Finite 10)"
  "demo_float (rstrip_chars (lit ''10.0%'') (lit ''%'')) = Some (Finite 10)"
  "demo_float (rstrip_chars (lit ''81.0C'') (lit ''C'')) = Some (Finite 81)"
  "demo_float (rstrip_chars (lit ''50.0%'') (lit ''%'')) = Some (Finite 50)"
  "demo_float (rstrip_chars (lit ''50.0C'') (lit ''C'')) = Some (Finite 50)"
  "demo_float (rstrip_chars (lit ''n/a'') (lit ''%'')) = None"
  "demo_float (rstrip_chars (lit ''n/a'') (lit ''C'')) = None"
  by (simp_all add: demo_float_def rstrip_chars_def)

text \<open>
  C5 on the texts the collector produces, with a parser that knows them.
\<close>

theorem C5_health_color_witness:
  "health_color demo_float (lit ''81.0%'') (lit ''10.0C'') = lit ''red'' \<and>
   health_color demo_float (lit ''10.0%'') (lit ''81.0C'') = lit ''red'' \<and>
   health_color demo_float (lit ''n/a'') (lit ''n/a'') = lit ''yellow'' \<and>
   health_color demo_float (lit ''50.0%'') (lit ''50.0C'') = lit ''green''"
  using C5_health_color[of demo_float "lit ''81.0%''" "lit ''10.0C''"]
    C5_health_color[of demo_float "lit ''10.0%''" "lit ''81.0C''"]
    C5_health_color[of demo_float "lit ''n/a''" "lit ''n/a''"]
    C5_health_color[of demo_float "lit ''50.0%''" "lit ''50.0C''"]
    demo_parse
  by metis

lemma children_closed:
  assumes "x \<in> set (group_names invt g)"
  shows "set (children (inv_get invt x)) \<subseteq> set (group_names invt g)"
proof (cases "map_of invt x")
  case None
  then show ?thesis by (simp add: inv_get_def)
next
  case (Some e)
  then have "(x, e) \<in> set invt" by (rule map_of_SomeD)
  then have "set (children e) \<subseteq> set (concat (map (\<lambda>kv. children (snd kv)) invt))" by force
  with Some show ?thesis by (auto simp: inv_get_def group_names_def)
qed

lemma collect_children_returns:
  assumes step: "\<And>c seen. c \<in> U \<Longrightarrow> card (U - seen) < n \<Longrightarrow>
      \<exists>h seen'. collect_hosts_fuel n invt c seen = Some (h, seen') \<and> seen \<subseteq> seen' \<and> finite h"
    and fin: "finite U"
  shows "set cs \<subseteq> U \<Longrightarrow> card (U - seen) < n \<Longrightarrow> finite hs \<Longrightarrow>
     \<exists>hs' seen'. collect_children n invt cs (hs, seen) = Some (hs', seen') \<and> seen \<subseteq> seen' \<and> finite hs'"
proof (induction cs arbitrary: hs seen)
  case Nil then show ?case by simp
next
  case (Cons c cs)
  from Cons.prems have "c \<in> U" by simp
  from step[OF this Cons.prems(2)] obtain h seen1 where
    c: "collect_hosts_fuel n invt c seen = Some (h, seen1)" and sub: "seen \<subseteq> seen1" and fh: "finite h"
    by blast
  have "U - seen1 \<subseteq> U - seen" using sub by blast
  then have "card (U - seen1) \<le> card (U - seen)" using fin by (intro card_mono) auto
  with Cons.prems(2) have lt: "card (U - seen1) < n" by simp
  from Cons.prems have "set cs \<subseteq> U" by simp
  from Cons.IH[OF this lt, of "hs \<union> h"] Cons.prems(3) fh obtain hs' seen' where
    "collect_children n invt cs (hs \<union> h, seen1) = Some (hs', seen')" "seen1 \<subseteq> seen'" "finite hs'"
    by auto
  with c sub show ?case by auto
qed

lemma collect_hosts_returns:
  "x \<in> set (group_names invt g) \<Longrightarrow> card (set (group_names invt g) - seen) < n \<Longrightarrow>
     \<exists>h seen'. collect_hosts_fuel n invt x seen = Some (h, seen') \<and> seen \<subseteq> seen' \<and> finite h"
proof (induction n arbitrary: x seen)
  case 0 then show ?case by simp
next
  case (Suc n)
  let ?U = "set (group_names invt g)"
  show ?case
  proof (cases "x \<in> seen")
    case True then show ?thesis by simp
  next
    case False
    with Suc.prems(1) have "x \<in> ?U - seen" by simp
    then have "card (?U - insert x seen) < card (?U - seen)"
      by (intro psubset_card_mono) auto
    with Suc.prems(2) have lt: "card (?U - insert x seen) < n" by simp
    have "set (children (inv_get invt x)) \<subseteq> ?U" using Suc.prems(1) by (rule children_closed)
    from collect_children_returns[where U = ?U and n = n and invt = invt, OF Suc.IH _ this lt,
        of "set (hosts (inv_get invt x))"]
    obtain hs' seen' where
      "collect_children n invt (children (inv_get invt x)) (set (hosts (inv_get invt x)), insert x seen)
         = Some (hs', seen')" "insert x seen \<subseteq> seen'" "finite hs'"
      by auto
    with False show ?thesis by auto
  qed
qed

lemma fuel_Suc:
  "(collect_hosts_fuel n invt x seen = Some r \<longrightarrow> collect_hosts_fuel (Suc n) invt x seen = Some r)"
  "(collect_children n invt cs acc = Some r \<longrightarrow> collect_children (Suc n) invt cs acc = Some r)"
proof (induction n invt x seen and n invt cs acc arbitrary: r and r
    rule: collect_hosts_fuel_collect_children.induct)
  case (1 invt group_name seen)
  then show ?case by simp
next
  case (2 n invt group_name seen)
  then show ?case by (cases "group_name \<in> seen") simp_all
next
  case (3 n invt acc)
  then show ?case by simp
next
  case (4 n invt child rest hs seen)
  show ?case
  proof
    assume a: "collect_children n invt (child # rest) (hs, seen) = Some r"
    then obtain h seen' where c: "collect_hosts_fuel n invt child seen = Some (h, seen')"
      by (auto split: option.splits)
    with a have rest: "collect_children n invt rest (hs \<union> h, seen') = Some r" by simp
    from "4.IH"(1) c have "collect_hosts_fuel (Suc n) invt child seen = Some (h, seen')" by blast
    moreover from "4.IH"(2)[OF c refl] rest
    have "collect_children (Suc n) invt rest (hs \<union> h, seen') = Some r" by blast
    ultimately show "collect_children (Suc n) invt (child # rest) (hs, seen) = Some r"
      by (simp del: collect_hosts_fuel.simps)
  qed
qed

lemma fuel_mono:
  "collect_hosts_fuel n invt x seen = Some r \<Longrightarrow> n \<le> m \<Longrightarrow> collect_hosts_fuel m invt x seen = Some r"
proof (induction m)
  case 0
  then show ?case by simp
next
  case (Suc m)
  show ?case
  proof (cases "n = Suc m")
    case True
    with Suc.prems show ?thesis by simp
  next
    case False
    with Suc.prems have "n \<le> m" by simp
    with Suc.IH Suc.prems(1) have "collect_hosts_fuel m invt x seen = Some r" by blast
    with fuel_Suc(1) show ?thesis by blast
  qed
qed

text \<open>
  C8. For every inventory, also one whose groups refer to each other in a
  cycle, the recursive host collection returns: a depth of one more than the
  number of group names is enough, more depth gives the same set, the set is
  finite, and a group that has been visited contributes nothing when it is met
  again.
\<close>

theorem C8_collect_hosts_terminates:
  "(\<exists>hs. collect_hosts invt g = Some hs \<and> finite hs \<and>
      (\<forall>n \<ge> Suc (length (group_names invt g)).
         map_option fst (collect_hosts_fuel n invt g {}) = Some hs)) \<and>
   (\<forall>n x seen. x \<in> seen \<longrightarrow> collect_hosts_fuel (Suc n) invt x seen = Some ({}, seen))"
proof -
  let ?b = "Suc (length (group_names invt g))"
  have "g \<in> set (group_names invt g)" by (simp add: group_names_def)
  moreover have "card (set (group_names invt g) - {}) < ?b"
    using card_length[of "group_names invt g"] by simp
  ultimately obtain h seen' where r: "collect_hosts_fuel ?b invt g {} = Some (h, seen')" and "finite h"
    using collect_hosts_returns by blast
  then have "collect_hosts invt g = Some h" by (simp add: collect_hosts_def)
  moreover have "\<forall>n \<ge> ?b. map_option fst (collect_hosts_fuel n invt g {}) = Some h"
    using fuel_mono[OF r] by simp
  ultimately show ?thesis using \<open>finite h\<close> by simp
qed

lemma demo_collect_hosts:
  "collect_hosts demo_inventory (lit ''FABRIC'') = Some {lit ''B'', lit ''C''}"
  by (simp add: collect_hosts_def group_names_def demo_inventory_def inv_get_def insert_commute)

text \<open>
  C8 on the sample inventory, where FABRIC and LEAF contain each other and LEAF
  is reached twice.
\<close>

theorem C8_collect_hosts_terminates_witness:
  "collect_hosts demo_inventory (lit ''FABRIC'') = Some {lit ''B'', lit ''C''} \<and>
   Suc (length (group_names demo_inventory (lit ''FABRIC''))) \<le> 7 \<and>
   map_option fst (collect_hosts_fuel 7 demo_inventory (lit ''FABRIC'') {}) = Some {lit ''B'', lit ''C''} \<and>
   lit ''LEAF'' \<in> {lit ''LEAF''} \<and>
   collect_hosts_fuel (Suc 0) demo_inventory (lit ''LEAF'') {lit ''LEAF''} = Some ({}, {lit ''LEAF''})"
proof -
  have b: "Suc (length (group_names demo_inventory (lit ''FABRIC''))) \<le> 7"
    by (simp add: group_names_def demo_inventory_def)
  from C8_collect_hosts_terminates[of demo_inventory "lit ''FABRIC''"] demo_collect_hosts b
  show ?thesis by auto
qed

lemma load_inventory_distinct:
  assumes "load_inventory_devices proc grp = Inr devices"
  shows "distinct (map Device.name devices)"
proof -
  from assms obtain f :: "ustr \<Rightarrow> ustr" and hs where
    "devices = map (\<lambda>hostname. \<lparr>Device.name = hostname, host = f hostname\<rparr>) (sorted_list_of_set hs)"
    by (auto simp: load_inventory_devices_def split: if_splits sum.splits option.splits)
  then have "map Device.name devices = sorted_list_of_set hs" by (simp add: comp_def)
  then show ?thesis by simp
qed

lemma filter_drifted_sound:
  "filter_drifted data devices = Inr dr \<Longrightarrow>
     (\<forall>d\<in>set dr. d \<in> set devices \<and> (\<exists>info. map_of data (Device.name d) = Some info \<and> drift info)) \<and>
     (distinct (map Device.name devices) \<longrightarrow> distinct (map Device.name dr))"
proof (induction devices arbitrary: dr)
  case Nil then show ?case by simp
next
  case (Cons d ds)
  from Cons.prems obtain info rest where
    i: "map_of data (Device.name d) = Some info" and r: "filter_drifted data ds = Inr rest"
    and dr: "dr = (if drift info then d # rest else rest)"
    by (auto split: option.splits sum.splits)
  from Cons.IH[OF r] i dr show ?case by (auto simp: image_iff)
qed

lemma restore_loop_log:
  "restore_loop env args dr ok s = ((ok', lg), s') \<Longrightarrow>
     map fst lg = dr \<and> (ok' \<longleftrightarrow> ok \<and> (\<forall>x\<in>set lg. fst (snd x)))"
proof (induction dr arbitrary: ok s ok' lg s')
  case Nil then show ?case by auto
next
  case (Cons d ds)
  obtain k m s1 where step: "restore_golden env args d s = ((k, m), s1)"
    by (cases "restore_golden env args d s") auto
  obtain ok2 lg2 s2 where rest: "restore_loop env args ds (if k then ok else False) s1 = ((ok2, lg2), s2)"
    by (cases "restore_loop env args ds (if k then ok else False) s1") auto
  with step Cons.prems have "ok' = ok2" "lg = (d, k, m) # lg2" by auto
  with Cons.IH[OF rest] show ?case by auto
qed

lemma main_run:
  assumes "main env args proc oper s = (Inr run, s')"
  shows "(restored run = [] \<and> post_drift run = []) \<or>
         (\<exists>devices s1 s2 s3 all_ok.
            load_inventory_devices proc (group args) = Inr devices \<and>
            detect_drift env args devices s1 = (drift_data run, s2) \<and>
            filter_drifted (drift_data run) devices = Inr (drifted run) \<and>
            drifted run \<noteq> [] \<and> \<not> no_restore args \<and> confirm oper \<and>
            restore_loop env args (drifted run) True s2 = ((all_ok, restored run), s3) \<and>
            detect_drift env args (drifted run) s3 = (post_drift run, s') \<and>
            exit_code run =
              (if all_ok \<and> filter (\<lambda>kv. drift (snd kv)) (post_drift run) = [] then 0 else 1))"
proof (cases "load_inventory_devices proc (group args)")
  case (Inl exc)
  with assms show ?thesis by (auto simp: main_def finished_def)
next
  case (Inr devices)
  note load = Inr
  show ?thesis
  proof (cases "devices = []")
    case True
    with assms load show ?thesis by (auto simp: main_def finished_def)
  next
    case False
    note nonempty = False
    define s1 where "s1 = (if watch args then watch_loop env (cycles oper) devices s
                           else snd (collect_all env devices s))"
    obtain data s2 where det: "detect_drift env args devices s1 = (data, s2)"
      by (cases "detect_drift env args devices s1")
    from assms load nonempty det
    have m1: "(case filter_drifted data devices of
                 Inl exc \<Rightarrow> (Inl exc, s2)
               | Inr dr \<Rightarrow>
                   if no_restore args \<or> dr = []
                   then (Inr (finished (if dr \<noteq> [] then 1 else 0) data dr), s2)
                   else if \<not> confirm oper
                   then (Inr (finished 1 data dr), s2)
                   else
                     (case restore_loop env args dr True s2 of
                        ((all_ok, lg), s3) \<Rightarrow>
                          (case detect_drift env args dr s3 of
                             (post, s4) \<Rightarrow>
                               (let remaining = map fst (filter (\<lambda>kv. drift (snd kv)) post);
                                    all_ok' = (if remaining \<noteq> [] then False else all_ok)
                                in (Inr \<lparr>exit_code = (if all_ok' then 0 else 1),
                                         drift_data = data, drifted = dr,
                                         restored = lg, post_drift = post\<rparr>, s4))))) = (Inr run, s')"
      by (simp add: main_def Let_def s1_def)
    show ?thesis
    proof (cases "filter_drifted data devices")
      case (Inl exc)
      with m1 show ?thesis by simp
    next
      case (Inr dr)
      note fil = Inr
      show ?thesis
      proof (cases "no_restore args \<or> dr = [] \<or> \<not> confirm oper")
        case True
        with m1 fil have "run = finished (if dr \<noteq> [] then 1 else 0) data dr \<or> run = finished 1 data dr"
          by (auto split: if_splits)
        then show ?thesis by (auto simp: finished_def)
      next
        case False
        obtain all_ok lg s3 where res: "restore_loop env args dr True s2 = ((all_ok, lg), s3)"
          by (cases "restore_loop env args dr True s2") auto
        obtain post s4 where pd: "detect_drift env args dr s3 = (post, s4)"
          by (cases "detect_drift env args dr s3")
        from m1 fil False res pd
        have run: "run = \<lparr>exit_code = (if (if map fst (filter (\<lambda>kv. drift (snd kv)) post) \<noteq> [] then False else all_ok) then 0 else 1),
                          drift_data = data, drifted = dr, restored = lg, post_drift = post\<rparr>"
          and s': "s4 = s'"
          by (simp_all add: Let_def)
        have "load_inventory_devices proc (group args) = Inr devices \<and>
            detect_drift env args devices s1 = (drift_data run, s2) \<and>
            filter_drifted (drift_data run) devices = Inr (drifted run) \<and>
            drifted run \<noteq> [] \<and> \<not> no_restore args \<and> confirm oper \<and>
            restore_loop env args (drifted run) True s2 = ((all_ok, restored run), s3) \<and>
            detect_drift env args (drifted run) s3 = (post_drift run, s') \<and>
            exit_code run =
              (if all_ok \<and> filter (\<lambda>kv. drift (snd kv)) (post_drift run) = [] then 0 else 1)"
          using load det fil False res pd s' unfolding run by simp
        then show ?thesis by blast
      qed
    qed
  qed
qed

lemma detect_drift_entry:
  assumes "detect_drift env args devices s = (data, s')" and "map_of data k = Some info"
  shows "\<not> (drift info \<and> reason info \<noteq> [])"
proof -
  from assms(2) have "(k, info) \<in> set (fst (detect_drift env args devices s))"
    using assms(1) by (simp add: map_of_SomeD)
  then have "\<forall>(n, r) \<in> set (fst (detect_drift env args devices s)). \<not> (drift r \<and> reason r \<noteq> [])
      \<Longrightarrow> ?thesis" by auto
  moreover obtain res s2 where run: "detect_loop env args devices [] s = (res, s2)"
    by (cases "detect_loop env args devices [] s")
  have "\<forall>(n, r) \<in> set res. \<not> (drift r \<and> reason r \<noteq> []) \<and> (\<not> drift r \<longrightarrow> diff r = [])"
    by (rule detect_loop_invariant[OF run]) (simp, rule detect_device_invariant)
  ultimately show ?thesis using run by (auto simp: detect_drift_def)
qed

text \<open>
  C6. \<open>restore_golden\<close> is called only for devices that the detection pass
  before it classified as drifted, never for a device with a reason (unknown),
  and for no device twice in one invocation.
\<close>

theorem C6_remediation_only_for_drifted:
  assumes "main env args proc oper s = (Inr run, s')"
  shows "distinct (map (\<lambda>x. Device.name (fst x)) (restored run)) \<and>
         (\<forall>x\<in>set (restored run).
            \<exists>info. map_of (drift_data run) (Device.name (fst x)) = Some info \<and>
                   drift info \<and> reason info = [])"
proof (cases "restored run = []")
  case True then show ?thesis by simp
next
  case False
  with main_run[OF assms] obtain devices s1 s2 s3 all_ok where
    inv: "load_inventory_devices proc (group args) = Inr devices"
    and det: "detect_drift env args devices s1 = (drift_data run, s2)"
    and fil: "filter_drifted (drift_data run) devices = Inr (drifted run)"
    and res: "restore_loop env args (drifted run) True s2 = ((all_ok, restored run), s3)"
    by auto
  from restore_loop_log[OF res] have lg: "map fst (restored run) = drifted run" by simp
  have "distinct (map Device.name (drifted run))"
    using filter_drifted_sound[OF fil] load_inventory_distinct[OF inv] by simp
  moreover have "map (\<lambda>x. Device.name (fst x)) (restored run) = map Device.name (map fst (restored run))"
    by simp
  ultimately have d: "distinct (map (\<lambda>x. Device.name (fst x)) (restored run))"
    using lg by simp
  have "\<forall>x\<in>set (restored run).
            \<exists>info. map_of (drift_data run) (Device.name (fst x)) = Some info \<and>
                   drift info \<and> reason info = []"
  proof
    fix x assume "x \<in> set (restored run)"
    then have "fst x \<in> set (map fst (restored run))" by simp
    then have "fst x \<in> set (drifted run)" using lg by simp
    with filter_drifted_sound[OF fil] obtain info where
      i: "map_of (drift_data run) (Device.name (fst x)) = Some info" and "drift info" by blast
    moreover from detect_drift_entry[OF det i] \<open>drift info\<close> have "reason info = []" by simp
    ultimately show "\<exists>info. map_of (drift_data run) (Device.name (fst x)) = Some info \<and>
                   drift info \<and> reason info = []" by blast
  qed
  with d show ?thesis by simp
qed

text \<open>
  C2, as the code has it. After a confirmed remediation the verification pass
  covers exactly the remediated devices, and the exit code is 1 if a restore
  step failed or a remediated device is re-detected as drifted, and 0 otherwise:
  a device that is re-detected as unknown does not count as failed.
\<close>

theorem C2_exit_code_after_remediation:
  assumes "main env args proc oper s = (Inr run, s')" and "restored run \<noteq> []"
  shows "exit_code run =
           (if (\<forall>x\<in>set (restored run). fst (snd x)) \<and> (\<forall>kv\<in>set (post_drift run). \<not> drift (snd kv))
            then 0 else 1) \<and>
         fst ` set (post_drift run) = (\<lambda>x. Device.name (fst x)) ` set (restored run)"
proof -
  from main_run[OF assms(1)] assms(2) obtain s2 s3 all_ok where
    res: "restore_loop env args (drifted run) True s2 = ((all_ok, restored run), s3)"
    and post: "detect_drift env args (drifted run) s3 = (post_drift run, s')"
    and code: "exit_code run =
              (if all_ok \<and> filter (\<lambda>kv. drift (snd kv)) (post_drift run) = [] then 0 else 1)"
    by auto
  from restore_loop_log[OF res] have lg: "map fst (restored run) = drifted run"
    and ok: "all_ok \<longleftrightarrow> (\<forall>x\<in>set (restored run). fst (snd x))" by simp_all
  have "fst ` set (post_drift run) = Device.name ` set (drifted run)"
    using detect_drift_keys_aux[OF post] .
  moreover have "set (drifted run) = fst ` set (restored run)" using lg by (metis set_map)
  ultimately have keys: "fst ` set (post_drift run) = (\<lambda>x. Device.name (fst x)) ` set (restored run)"
    by (simp add: image_image)
  show ?thesis using code ok keys by (auto simp: filter_empty_conv)
qed

lemma demo_sorted: "sorted_list_of_set {lit ''B'', lit ''C''} = [lit ''B'', lit ''C'']"
proof -
  have "sorted_list_of_set (set [lit ''B'', lit ''C'']) = [lit ''B'', lit ''C'']"
    by (rule sorted_list_of_set.idem_if_sorted_distinct) simp_all
  then show ?thesis by simp
qed

lemma demo_devices:
  "load_inventory_devices demo_proc (lit ''FABRIC'') = Inr [dev ''B'' ''hB'', dev ''C'' ''C'']"
proof -
  have a: "map_of demo_inventory (lit ''FABRIC'') \<noteq> None"
    by (simp add: demo_inventory_def)
  have b: "hostvars (inv_get demo_inventory (lit ''_meta'')) = [(lit ''B'', lit ''hB'')]"
    by (simp add: demo_inventory_def inv_get_def)
  show ?thesis
    using a b demo_collect_hosts demo_sorted
    by (simp add: load_inventory_devices_def demo_proc_def dev_def)
qed

lemmas driver_defs = main_def finished_def detect_drift_def detect_device_def read_error_def
  restore_golden_def stage_golden_to_flash_def collect_snapshot_def unreachable_def get_or_na_def
  format_uptime_def Let_def

lemma demo_main_unknown:
  "main (demo_env 4 (lit ''timed out'')) demo_args demo_proc \<lparr>confirm = True, cycles = 0\<rparr> demo_state =
     (Inr \<lparr>exit_code = 0,
        drift_data =
          [(lit ''B'', \<lparr>drift = True, reason = [],
              diff = [lit ''--- golden/B.cfg'', lit ''+++ running/B''], golden_path = lit ''g/B.cfg''\<rparr>),
           (lit ''C'', \<lparr>drift = False, reason = lit ''Golden config missing'', diff = [],
              golden_path = lit ''g/C.cfg''\<rparr>)],
        drifted = [dev ''B'' ''hB''],
        restored = [(dev ''B'' ''hB'', True, lit ''Restored from flash:golden-B.cfg'')],
        post_drift =
          [(lit ''B'', \<lparr>drift = False, reason = lit ''Error reading running-config: timed out'',
              diff = [], golden_path = lit ''g/B.cfg''\<rparr>)]\<rparr>,
      \<lparr>fs = (), net = (5, 1),
         opened = [dev ''B'' ''hB'', dev ''C'' ''C'', dev ''B'' ''hB'', dev ''B'' ''hB'', dev ''B'' ''hB'']\<rparr>)"
proof -
  have g: "group demo_args = lit ''FABRIC''" by (simp add: demo_args_def)
  show ?thesis
    using demo_devices
    by (simp add: g driver_defs text_defs session_defs demo_defs)
qed

lemma demo_main_verified:
  "main (demo_env 9 []) demo_args demo_proc \<lparr>confirm = True, cycles = 0\<rparr> demo_state =
     (Inr \<lparr>exit_code = 0,
        drift_data =
          [(lit ''B'', \<lparr>drift = True, reason = [],
              diff = [lit ''--- golden/B.cfg'', lit ''+++ running/B''], golden_path = lit ''g/B.cfg''\<rparr>),
           (lit ''C'', \<lparr>drift = False, reason = lit ''Golden config missing'', diff = [],
              golden_path = lit ''g/C.cfg''\<rparr>)],
        drifted = [dev ''B'' ''hB''],
        restored = [(dev ''B'' ''hB'', True, lit ''Restored from flash:golden-B.cfg'')],
        post_drift =
          [(lit ''B'', \<lparr>drift = False, reason = [], diff = [], golden_path = lit ''g/B.cfg''\<rparr>)]\<rparr>,
      \<lparr>fs = (), net = (5, 1),
         opened = [dev ''B'' ''hB'', dev ''C'' ''C'', dev ''B'' ''hB'', dev ''B'' ''hB'', dev ''B'' ''hB'']\<rparr>)"
proof -
  have g: "group demo_args = lit ''FABRIC''" by (simp add: demo_args_def)
  show ?thesis
    using demo_devices
    by (simp add: g driver_defs text_defs session_defs demo_defs)
qed

lemma demo_main_restore_failed:
  "main (demo_env 3 (lit ''timed out'')) demo_args demo_proc \<lparr>confirm = True, cycles = 0\<rparr> demo_state =
     (Inr \<lparr>exit_code = 1,
        drift_data =
          [(lit ''B'', \<lparr>drift = True, reason = [],
              diff = [lit ''--- golden/B.cfg'', lit ''+++ running/B''], golden_path = lit ''g/B.cfg''\<rparr>),
           (lit ''C'', \<lparr>drift = False, reason = lit ''Golden config missing'', diff = [],
              golden_path = lit ''g/C.cfg''\<rparr>)],
        drifted = [dev ''B'' ''hB''],
        restored = [(dev ''B'' ''hB'', False, lit ''timed out'')],
        post_drift =
          [(lit ''B'', \<lparr>drift = False, reason = lit ''Error reading running-config: timed out'',
              diff = [], golden_path = lit ''g/B.cfg''\<rparr>)]\<rparr>,
      \<lparr>fs = (), net = (5, 0),
         opened = [dev ''B'' ''hB'', dev ''C'' ''C'', dev ''B'' ''hB'', dev ''B'' ''hB'', dev ''B'' ''hB'']\<rparr>)"
proof -
  have g: "group demo_args = lit ''FABRIC''" by (simp add: demo_args_def)
  show ?thesis
    using demo_devices
    by (simp add: g driver_defs text_defs session_defs demo_defs)
qed

text \<open>
  C6 on the sample fabric: B is drifted and remediated once, C is unknown and
  left alone.
\<close>

theorem C6_remediation_only_for_drifted_witness:
  "main (demo_env 3 (lit ''timed out'')) demo_args demo_proc \<lparr>confirm = True, cycles = 0\<rparr> demo_state =
     (Inr \<lparr>exit_code = 1,
        drift_data =
          [(lit ''B'', \<lparr>drift = True, reason = [],
              diff = [lit ''--- golden/B.cfg'', lit ''+++ running/B''], golden_path = lit ''g/B.cfg''\<rparr>),
           (lit ''C'', \<lparr>drift = False, reason = lit ''Golden config missing'', diff = [],
              golden_path = lit ''g/C.cfg''\<rparr>)],
        drifted = [dev ''B'' ''hB''],
        restored = [(dev ''B'' ''hB'', False, lit ''timed out'')],
        post_drift =
          [(lit ''B'', \<lparr>drift = False, reason = lit ''Error reading running-config: timed out'',
              diff = [], golden_path = lit ''g/B.cfg''\<rparr>)]\<rparr>,
      \<lparr>fs = (), net = (5, 0),
         opened = [dev ''B'' ''hB'', dev ''C'' ''C'', dev ''B'' ''hB'', dev ''B'' ''hB'', dev ''B'' ''hB'']\<rparr>) \<and>
   distinct (map (\<lambda>x. Device.name (fst x)) [(dev ''B'' ''hB'', False, lit ''timed out'')]) \<and>
   map_of
     [(lit ''B'', \<lparr>drift = True, reason = [],
         diff = [lit ''--- golden/B.cfg'', lit ''+++ running/B''], golden_path = lit ''g/B.cfg''\<rparr>),
      (lit ''C'', \<lparr>drift = False, reason = lit ''Golden config missing'', diff = [],
         golden_path = lit ''g/C.cfg''\<rparr>)] (Device.name (dev ''B'' ''hB'')) =
     Some \<lparr>drift = True, reason = [],
         diff = [lit ''--- golden/B.cfg'', lit ''+++ running/B''], golden_path = lit ''g/B.cfg''\<rparr>"
  using C6_remediation_only_for_drifted[OF demo_main_restore_failed] demo_main_restore_failed
  by (simp add: dev_def)

text \<open>
  C2 on the sample fabric: B is restored and re-detected as clean, exit code 0.
\<close>

theorem C2_exit_code_after_remediation_witness:
  "main (demo_env 9 []) demo_args demo_proc \<lparr>confirm = True, cycles = 0\<rparr> demo_state =
     (Inr \<lparr>exit_code = 0,
        drift_data =
          [(lit ''B'', \<lparr>drift = True, reason = [],
              diff = [lit ''--- golden/B.cfg'', lit ''+++ running/B''], golden_path = lit ''g/B.cfg''\<rparr>),
           (lit ''C'', \<lparr>drift = False, reason = lit ''Golden config missing'', diff = [],
              golden_path = lit ''g/C.cfg''\<rparr>)],
        drifted = [dev ''B'' ''hB''],
        restored = [(dev ''B'' ''hB'', True, lit ''Restored from flash:golden-B.cfg'')],
        post_drift =
          [(lit ''B'', \<lparr>drift = False, reason = [], diff = [], golden_path = lit ''g/B.cfg''\<rparr>)]\<rparr>,
      \<lparr>fs = (), net = (5, 1),
         opened = [dev ''B'' ''hB'', dev ''C'' ''C'', dev ''B'' ''hB'', dev ''B'' ''hB'', dev ''B'' ''hB'']\<rparr>) \<and>
   [(dev ''B'' ''hB'', True, lit ''Restored from flash:golden-B.cfg'')] \<noteq> [] \<and>
   fst ` set [(lit ''B'', \<lparr>drift = False, reason = [], diff = [], golden_path = lit ''g/B.cfg''\<rparr>)] =
     (\<lambda>x. Device.name (fst x)) ` set [(dev ''B'' ''hB'', True, lit ''Restored from flash:golden-B.cfg'')]"
  using C2_exit_code_after_remediation[OF demo_main_verified] demo_main_verified
  by (simp add: dev_def)

text \<open>
  C2 as stated fails where the restore succeeds and the connection for the
  verification pass times out: B is re-detected as unknown and the exit code
  is 0.
\<close>

theorem C2_unknown_after_restore_counterexample:
  "fst (main (demo_env 4 (lit ''timed out'')) demo_args demo_proc \<lparr>confirm = True, cycles = 0\<rparr> demo_state) =
     Inr \<lparr>exit_code = 0,
        drift_data =
          [(lit ''B'', \<lparr>drift = True, reason = [],
              diff = [lit ''--- golden/B.cfg'', lit ''+++ running/B''], golden_path = lit ''g/B.cfg''\<rparr>),
           (lit ''C'', \<lparr>drift = False, reason = lit ''Golden config missing'', diff = [],
              golden_path = lit ''g/C.cfg''\<rparr>)],
        drifted = [dev ''B'' ''hB''],
        restored = [(dev ''B'' ''hB'', True, lit ''Restored from flash:golden-B.cfg'')],
        post_drift =
          [(lit ''B'', \<lparr>drift = False, reason = lit ''Error reading running-config: timed out'',
              diff = [], golden_path = lit ''g/B.cfg''\<rparr>)]\<rparr>"
  using demo_main_unknown by simp

text \<open>
  C1 fails on the code. The live side strips trailing whitespace from every
  line and the golden side does not, so a golden file with a space at the end of
  a line that is not its last reports drift against a device that returns the
  very same text. \<open>unified_diff\<close> is any function that is empty only on equal
  line lists, as \<^verbatim>\<open>difflib.unified_diff\<close> is.
\<close>

theorem C1_trailing_whitespace_in_golden_reports_drift:
  assumes "\<And>a b f t. unified_diff env a b f t = [] \<Longrightarrow> a = b"
    and "path_exists env (golden_file_path (golden_dir args) (Device.name device)) (fs s)"
    and "node_for_device env device s = (Inr nd, s1)"
    and "command_text env nd (lit ''show running-config'') s1 = (Inr (lit ''a '' @ NL @ lit ''b'' @ NL), s2)"
    and "read_text env (golden_file_path (golden_dir args) (Device.name device)) (fs s2) =
           Inr (lit ''a '' @ NL @ lit ''b'' @ NL)"
  shows "drift (fst (detect_device env args device s)) \<and>
         diff (fst (detect_device env args device s)) \<noteq> [] \<and>
         normalize_golden (lit ''a '' @ NL @ lit ''b'' @ NL) \<noteq> normalize_running (lit ''a '' @ NL @ lit ''b'' @ NL)"
proof -
  have g: "normalize_golden (lit ''a '' @ NL @ lit ''b'' @ NL) = lit ''a '' @ NL @ lit ''b'' @ NL"
    by (simp add: text_defs)
  have r: "normalize_running (lit ''a '' @ NL @ lit ''b'' @ NL) = lit ''a'' @ NL @ lit ''b'' @ NL"
    by (simp add: text_defs)
  have lg: "splitlines (lit ''a '' @ NL @ lit ''b'' @ NL) = [lit ''a '', lit ''b'']"
    by (simp add: is_linebreak_def NL_def)
  have lr: "splitlines (lit ''a'' @ NL @ lit ''b'' @ NL) = [lit ''a'', lit ''b'']"
    by (simp add: is_linebreak_def NL_def)
  let ?d = "config_diff env (normalize_golden (lit ''a '' @ NL @ lit ''b'' @ NL))
              (normalize_running (lit ''a '' @ NL @ lit ''b'' @ NL)) (Device.name device)"
  have "?d \<noteq> []"
  proof
    assume "?d = []"
    then have "splitlines (lit ''a '' @ NL @ lit ''b'' @ NL) = splitlines (lit ''a'' @ NL @ lit ''b'' @ NL)"
      unfolding config_diff_def g r by (rule assms(1))
    then show False unfolding lg lr by simp
  qed
  moreover have "detect_device env args device s =
      (\<lparr>drift = (length ?d > 0), reason = [], diff = ?d,
        golden_path = golden_file_path (golden_dir args) (Device.name device)\<rparr>, s2)"
    using assms(2-5) by (simp add: detect_device_def Let_def running_config_def load_golden_config_def)
  ultimately show ?thesis using g r by simp
qed

text \<open>
  C1 on the sample fabric: device A.
\<close>

theorem C1_trailing_whitespace_in_golden_reports_drift_witness:
  "path_exists (demo_env 9 []) (golden_file_path (golden_dir demo_args) (Device.name (dev ''A'' ''hA'')))
     (fs demo_state) \<and>
   node_for_device (demo_env 9 []) (dev ''A'' ''hA'') demo_state =
     (Inr (lit ''hA''), \<lparr>fs = (), net = (1, 0), opened = [dev ''A'' ''hA'']\<rparr>) \<and>
   command_text (demo_env 9 []) (lit ''hA'') (lit ''show running-config'')
       \<lparr>fs = (), net = (1, 0), opened = [dev ''A'' ''hA'']\<rparr> =
     (Inr (lit ''a '' @ NL @ lit ''b'' @ NL), \<lparr>fs = (), net = (1, 0), opened = [dev ''A'' ''hA'']\<rparr>) \<and>
   read_text (demo_env 9 []) (golden_file_path (golden_dir demo_args) (Device.name (dev ''A'' ''hA''))) () =
     Inr (lit ''a '' @ NL @ lit ''b'' @ NL) \<and>
   drift (fst (detect_device (demo_env 9 []) demo_args (dev ''A'' ''hA'') demo_state))"
proof -
  have h1: "\<And>a b f t. unified_diff (demo_env 9 []) a b f t = [] \<Longrightarrow> a = b"
    by (simp add: demo_env_def demo_diff_def split: if_splits)
  have h2: "path_exists (demo_env 9 []) (golden_file_path (golden_dir demo_args) (Device.name (dev ''A'' ''hA'')))
     (fs demo_state)"
    by (simp add: demo_defs golden_file_path_def)
  have h3: "node_for_device (demo_env 9 []) (dev ''A'' ''hA'') demo_state =
     (Inr (lit ''hA''), \<lparr>fs = (), net = (1, 0), opened = [dev ''A'' ''hA'']\<rparr>)"
    by (simp add: session_defs demo_defs)
  have h4: "command_text (demo_env 9 []) (lit ''hA'') (lit ''show running-config'')
       \<lparr>fs = (), net = (1, 0), opened = [dev ''A'' ''hA'']\<rparr> =
     (Inr (lit ''a '' @ NL @ lit ''b'' @ NL), \<lparr>fs = (), net = (1, 0), opened = [dev ''A'' ''hA'']\<rparr>)"
    by (simp add: session_defs demo_defs)
  have h5: "read_text (demo_env 9 []) (golden_file_path (golden_dir demo_args) (Device.name (dev ''A'' ''hA'')))
       (fs \<lparr>fs = (), net = (1::nat, 0::nat), opened = [dev ''A'' ''hA'']\<rparr>) =
     Inr (lit ''a '' @ NL @ lit ''b'' @ NL)"
    by (simp add: demo_defs golden_file_path_def)
  from C1_trailing_whitespace_in_golden_reports_drift[OF h1 h2 h3 h4 h5]
  have "drift (fst (detect_device (demo_env 9 []) demo_args (dev ''A'' ''hA'') demo_state))" by simp
  with h1 h2 h3 h4 h5 show ?thesis by simp
qed

section \<open>Claims\<close>

text \<open>
  C9. Both normalisations of the drift detector are idempotent: for every text,
  normalising the live side twice gives what normalising it once gives, and the
  same holds for the golden side, code point for code point.
\<close>

theorem C9_normalization_idempotent:
  "normalize_running (normalize_running s) = normalize_running s \<and>
   normalize_golden (normalize_golden s) = normalize_golden s"
  using normalize_running_idem normalize_golden_idem by simp

end
